theory Spec2Isabelle
  imports Complex_Main "HOL-Library.AList" "HOL-Library.List_Lexorder" "HOL-Library.Char_ord"
begin

section \<open>The graph container\<close>

text \<open>
  Both components work on a \<^verbatim>\<open>networkx.DiGraph\<close>. The library keeps one attribute
  dictionary per node and one per ordered pair of nodes, both in insertion order. The
  program only ever uses the node attributes \<^verbatim>\<open>label\<close>, \<^verbatim>\<open>type\<close> and \<^verbatim>\<open>wl_label\<close> and
  the edge attribute \<^verbatim>\<open>type\<close>, so a node's dictionary is a record of three optional
  strings and an edge's dictionary is one optional string. Dictionaries are association
  lists: \<open>AList.update\<close> overwrites the value of a key that is present, in place, and
  appends a new key at the end, as a Python \<^verbatim>\<open>dict\<close> does.
\<close>

record node_data =
  label :: "string option"
  type :: "string option"
  wl_label :: "string option"

record DiGraph =
  nodes :: "(string \<times> node_data) list"
  edges :: "((string \<times> string) \<times> string option) list"

definition empty_DiGraph :: DiGraph where
  "empty_DiGraph = \<lparr>nodes = [], edges = []\<rparr>"

definition no_data :: node_data where
  "no_data = \<lparr>label = None, type = None, wl_label = None\<rparr>"

text \<open>\<^verbatim>\<open>G.add_node(n, label=l, type=t)\<close>: a new node gets the two attributes, a node that
  exists has them overwritten.\<close>

definition nx_add_node :: "string \<Rightarrow> string \<Rightarrow> string \<Rightarrow> DiGraph \<Rightarrow> DiGraph" where
  "nx_add_node n l t G =
     (let d = (case map_of (nodes G) n of None \<Rightarrow> no_data | Some d \<Rightarrow> d)
      in G\<lparr>nodes := AList.update n (d\<lparr>label := Some l, type := Some t\<rparr>) (nodes G)\<rparr>)"

definition ensure_node :: "string \<Rightarrow> (string \<times> node_data) list \<Rightarrow> (string \<times> node_data) list" where
  "ensure_node n ns = (case map_of ns n of None \<Rightarrow> ns @ [(n, no_data)] | Some d \<Rightarrow> ns)"

text \<open>\<^verbatim>\<open>G.add_edge(u, v, type=t)\<close>: endpoints that are not nodes yet are created without
  attributes; the pair \<open>(u, v)\<close> has ONE attribute dictionary, so a second call on the same
  ordered pair overwrites the \<^verbatim>\<open>type\<close> stored by the first.\<close>

definition nx_add_edge :: "string \<Rightarrow> string \<Rightarrow> string \<Rightarrow> DiGraph \<Rightarrow> DiGraph" where
  "nx_add_edge u v t G =
     G\<lparr>nodes := ensure_node v (ensure_node u (nodes G)),
       edges := AList.update (u, v) (Some t) (edges G)\<rparr>"

text \<open>The edges of one kind, as the pairs they connect.\<close>

definition edges_of_kind :: "string \<Rightarrow> DiGraph \<Rightarrow> (string \<times> string) list" where
  "edges_of_kind k G = map fst (filter (\<lambda>e. snd e = Some k) (edges G))"

section \<open>The statement tree\<close>

text \<open>
  The tree comes from \<^verbatim>\<open>pycparser\<close>. Each class the Builder names is a constructor with
  the fields the Builder reads and the children \<^verbatim>\<open>generic_visit\<close> iterates over, in the
  library's order; \<open>Other\<close> stands for every other class, with its children. A field that
  may be \<^verbatim>\<open>None\<close> is an option. The argument list of a call is \<^verbatim>\<open>None\<close> or an
  \<^verbatim>\<open>ExprList\<close>, given here by its expressions.
\<close>

datatype node =
    Constant string
  | ID string
  | BinaryOp string node node
  | UnaryOp string node
  | Assignment string node node
  | FuncCall node "node list option"
  | Decl "string option" node "node option" "node option"
  | If node "node option" "node option"
  | Return "node option"
  | Compound "node list option"
  | ExprList "node list"
  | Other "node list"

section \<open>Strings\<close>

text \<open>\<^verbatim>\<open>sep.join(xs)\<close>.\<close>

fun join :: "string \<Rightarrow> string list \<Rightarrow> string" where
  "join sep [] = []"
| "join sep [x] = x"
| "join sep (x # y # ys) = x @ sep @ join sep (y # ys)"

text \<open>The decimal text of a natural number, as an f-string prints it.\<close>

definition digit :: "nat \<Rightarrow> char" where
  "digit d = ''0123456789'' ! d"

function str_nat :: "nat \<Rightarrow> string" where
  "str_nat n = (if n < 10 then [digit n] else str_nat (n div 10) @ [digit (n mod 10)])"
  by pat_completeness auto
termination
  by (relation "measure id") auto

declare str_nat.simps [simp del]

text \<open>An f-string prints \<^verbatim>\<open>None\<close> as the text \<^verbatim>\<open>None\<close>.\<close>

definition str_opt :: "string option \<Rightarrow> string" where
  "str_opt x = (case x of None \<Rightarrow> ''None'' | Some s \<Rightarrow> s)"

section \<open>The Builder\<close>

record PDGGenerator =
  pdg :: DiGraph
  node_id :: nat
  last_assignment :: "(string \<times> string) list"

text \<open>\<^verbatim>\<open>PDGGenerator.__init__\<close>.\<close>

definition new_PDGGenerator :: PDGGenerator where
  "new_PDGGenerator = \<lparr>pdg = empty_DiGraph, node_id = 0, last_assignment = []\<rparr>"

text \<open>The visitor holds a reference to its generator; the model carries the generator's
  state inside the visitor's and hands it back at the end of \<open>generate\<close>.\<close>

record Visitor =
  outer :: PDGGenerator
  current_node :: "string option"

text \<open>\<^verbatim>\<open>Visitor.__init__\<close>.\<close>

definition new_Visitor :: "PDGGenerator \<Rightarrow> Visitor" where
  "new_Visitor gen = \<lparr>outer = gen, current_node = None\<rparr>"

definition pdg_add_edge :: "string \<Rightarrow> string \<Rightarrow> string \<Rightarrow> Visitor \<Rightarrow> Visitor" where
  "pdg_add_edge u w t v = v\<lparr>outer := (outer v)\<lparr>pdg := nx_add_edge u w t (pdg (outer v))\<rparr>\<rparr>"

text \<open>The identifier \<^verbatim>\<open>f"n{node_id}"\<close>.\<close>

definition node_name :: "nat \<Rightarrow> string" where
  "node_name k = ''n'' @ str_nat k"

definition add_node :: "string \<Rightarrow> string \<Rightarrow> Visitor \<Rightarrow> string \<times> Visitor" where
  "add_node lbl node_type v =
     (let nid = node_name (node_id (outer v));
          g = nx_add_node nid lbl node_type (pdg (outer v));
          g' = (case current_node v of None \<Rightarrow> g | Some c \<Rightarrow> nx_add_edge c nid ''control'' g)
      in (nid, v\<lparr>outer := (outer v)\<lparr>pdg := g', node_id := node_id (outer v) + 1\<rparr>,
                 current_node := Some nid\<rparr>))"

fun get_text :: "node \<Rightarrow> string" where
  "get_text (Constant val) = val"
| "get_text (ID name) = name"
| "get_text (BinaryOp op left right) =
     ''('' @ get_text left @ '' '' @ op @ '' '' @ get_text right @ '')''"
| "get_text (Assignment op lvalue rvalue) =
     get_text lvalue @ '' '' @ op @ '' '' @ get_text rvalue"
| "get_text (UnaryOp op expr) = op @ get_text expr"
| "get_text (FuncCall name None) = ''Call '' @ get_text name @ ''()''"
| "get_text (FuncCall name (Some exprs)) =
     ''Call '' @ get_text name @ ''('' @ join '', '' (map get_text exprs) @ '')''"
| "get_text _ = ''?''"

definition visit_FuncCall :: "node \<Rightarrow> node list option \<Rightarrow> Visitor \<Rightarrow> string \<times> Visitor" where
  "visit_FuncCall name args v =
     (let func_name = get_text name;
          args_text = (case args of None \<Rightarrow> [] | Some exprs \<Rightarrow> map get_text exprs)
      in add_node (''Call '' @ func_name @ ''('' @ join '', '' args_text @ '')'') ''func_call'' v)"

definition visit_Decl :: "string option \<Rightarrow> node option \<Rightarrow> Visitor \<Rightarrow> Visitor" where
  "visit_Decl name init v =
     (let (decl_id, v1) = add_node (''Decl '' @ str_opt name) ''decl'' v
      in case init of
           None \<Rightarrow> v1
         | Some (FuncCall fname fargs) \<Rightarrow>
             (let (call_id, v2) = visit_FuncCall fname fargs v1;
                  (assign_id, v3) = add_node (str_opt name @ '' = [call]'') ''assign'' v2
              in pdg_add_edge assign_id call_id ''data'' v3)
         | Some e \<Rightarrow>
             (let init_str = get_text e;
                  (assign_id, v2) = add_node (str_opt name @ '' = '' @ init_str) ''assign'' v1
              in v2))"

text \<open>\<^verbatim>\<open>self.outer.last_assignment[lval] = nid\<close>.\<close>

definition set_last_assignment :: "string \<Rightarrow> string \<Rightarrow> Visitor \<Rightarrow> Visitor" where
  "set_last_assignment lval nid v =
     v\<lparr>outer := (outer v)\<lparr>last_assignment :=
          AList.update lval nid (last_assignment (outer v))\<rparr>\<rparr>"

text \<open>\<^verbatim>\<open>visit_Assignment\<close> up to and including the write to the last-assignment map; the
  visit of the right-hand side's children follows in \<open>visit\<close>.\<close>

definition assign_step :: "string \<Rightarrow> node \<Rightarrow> node \<Rightarrow> Visitor \<Rightarrow> Visitor" where
  "assign_step op lvalue rvalue v =
     (let lval = get_text lvalue;
          (nid, v1) =
            (case rvalue of
               FuncCall fname fargs \<Rightarrow>
                 (let (call_id, va) = visit_FuncCall fname fargs v;
                      (nid, vb) = add_node (lval @ '' '' @ op @ '' [call]'') ''assign'' va
                  in (nid, pdg_add_edge nid call_id ''data'' vb))
             | _ \<Rightarrow>
                 (let rval = get_text rvalue
                  in add_node (lval @ '' '' @ op @ '' '' @ rval) ''assign'' v))
      in set_last_assignment lval nid v1)"

definition visit_ID :: "string \<Rightarrow> Visitor \<Rightarrow> Visitor" where
  "visit_ID name v =
     (case map_of (last_assignment (outer v)) name of
        None \<Rightarrow> v
      | Some def_nid \<Rightarrow>
          (let (use_nid, v1) = add_node (''Use '' @ name) ''use'' v
           in pdg_add_edge def_nid use_nid ''data'' v1))"

text \<open>One branch of \<^verbatim>\<open>visit_If\<close>, before and after the visit of the branch. The cursor is
  never \<^verbatim>\<open>None\<close> after the branch (see \<open>visit_cursor_all\<close> below), so the first case of
  \<open>leave_branch\<close> is never taken.\<close>

definition enter_branch :: "string \<Rightarrow> Visitor \<Rightarrow> Visitor" where
  "enter_branch cond_nid v = v\<lparr>current_node := Some cond_nid\<rparr>"

definition leave_branch :: "string \<Rightarrow> string option \<Rightarrow> Visitor \<Rightarrow> Visitor" where
  "leave_branch cond_nid old v =
     (case current_node v of
        None \<Rightarrow> v\<lparr>current_node := old\<rparr>
      | Some c \<Rightarrow> (pdg_add_edge cond_nid c ''control'' v)\<lparr>current_node := old\<rparr>)"

fun visit :: "node \<Rightarrow> Visitor \<Rightarrow> Visitor"
  and generic_visit :: "node \<Rightarrow> Visitor \<Rightarrow> Visitor"
  and visit_opt :: "node option \<Rightarrow> Visitor \<Rightarrow> Visitor"
  and visit_each :: "node list \<Rightarrow> Visitor \<Rightarrow> Visitor"
where
  "visit (Decl name ty init bitsize) v = visit_Decl name init v"
| "visit (Assignment op lvalue rvalue) v = generic_visit rvalue (assign_step op lvalue rvalue v)"
| "visit (FuncCall name args) v = snd (visit_FuncCall name args v)"
| "visit (If cond iftrue iffalse) v =
     (let (cond_nid, v0) = add_node (''If '' @ get_text cond @ ''?'') ''if'' v;
          v1 = (case iftrue of
                  None \<Rightarrow> v0
                | Some t \<Rightarrow>
                    (let old = current_node v0
                     in leave_branch cond_nid old (visit t (enter_branch cond_nid v0))))
      in case iffalse of
           None \<Rightarrow> v1
         | Some f \<Rightarrow>
             (let old = current_node v1
              in leave_branch cond_nid old (visit f (enter_branch cond_nid v1))))"
| "visit (Return None) v = snd (add_node ''Return'' ''return'' v)"
| "visit (Return (Some expr)) v =
     generic_visit expr (snd (add_node (''Return '' @ get_text expr) ''return'' v))"
| "visit (Compound None) v = v"
| "visit (Compound (Some block_items)) v = visit_each block_items v"
| "visit (ID name) v = visit_ID name v"
| "visit (Constant val) v = generic_visit (Constant val) v"
| "visit (BinaryOp op left right) v = generic_visit (BinaryOp op left right) v"
| "visit (UnaryOp op expr) v = generic_visit (UnaryOp op expr) v"
| "visit (ExprList exprs) v = generic_visit (ExprList exprs) v"
| "visit (Other cs) v = generic_visit (Other cs) v"
| "generic_visit (Constant val) v = v"
| "generic_visit (ID name) v = v"
| "generic_visit (BinaryOp op left right) v = visit right (visit left v)"
| "generic_visit (UnaryOp op expr) v = visit expr v"
| "generic_visit (Assignment op lvalue rvalue) v = visit rvalue (visit lvalue v)"
| "generic_visit (FuncCall name None) v = visit name v"
| "generic_visit (FuncCall name (Some exprs)) v = visit_each exprs (visit name v)"
| "generic_visit (Decl name ty init bitsize) v = visit_opt bitsize (visit_opt init (visit ty v))"
| "generic_visit (If cond iftrue iffalse) v = visit_opt iffalse (visit_opt iftrue (visit cond v))"
| "generic_visit (Return expr) v = visit_opt expr v"
| "generic_visit (Compound None) v = v"
| "generic_visit (Compound (Some block_items)) v = visit_each block_items v"
| "generic_visit (ExprList exprs) v = visit_each exprs v"
| "generic_visit (Other cs) v = visit_each cs v"
| "visit_opt None v = v"
| "visit_opt (Some c) v = visit c v"
| "visit_each [] v = v"
| "visit_each (c # cs) v = visit_each cs (visit c v)"

text \<open>\<^verbatim>\<open>PDGGenerator.generate\<close>: the graph it returns is the generator's own, and the
  generator keeps the state the run leaves.\<close>

definition generate :: "node \<Rightarrow> PDGGenerator \<Rightarrow> DiGraph \<times> PDGGenerator" where
  "generate ast gen = (let v = visit ast (new_Visitor gen) in (pdg (outer v), outer v))"

section \<open>The Scorer\<close>

text \<open>
  A lookup that raises \<^verbatim>\<open>KeyError\<close> in Python is \<open>None\<close> here. The function overwrites
  the \<^verbatim>\<open>wl_label\<close> of its two arguments in place; the model threads the two graphs
  through the rounds and returns the score only.
\<close>

subsection \<open>Python floats\<close>

text \<open>
  \<^verbatim>\<open>weisfeiler_lehman_kernel\<close> computes its weights and its score with Python floats,
  which are IEEE 754 binary64 numbers. A finite float is a rational number, and the model
  keeps it as that rational: every arithmetic operation computes the exact result and
  rounds it to the nearest float, ties to the float with an even mantissa. A float has 53
  mantissa bits, and its unit in the last place is never below \<open>2 ^ -1074\<close>, the spacing of
  the subnormal numbers, so tiny results lose bits and results below \<open>2 ^ -1075\<close> become
  zero. Overflow is left out: no value of this computation comes near \<open>2 ^ 1024\<close>.
\<close>

text \<open>The number of binary digits of a positive integer, \<^verbatim>\<open>int.bit_length\<close>.\<close>

function bitlen :: "int \<Rightarrow> int" where
  "bitlen p = (if p \<le> 0 then 0 else 1 + bitlen (p div 2))"
  by pat_completeness auto
termination
  by (relation "measure nat") auto

declare bitlen.simps [simp del]

text \<open>The binary exponent of a positive rational: the \<open>L\<close> with \<open>2 ^ L \<le> x < 2 ^ (L + 1)\<close>.\<close>

definition floor_log2 :: "rat \<Rightarrow> int" where
  "floor_log2 x =
     (let (p, q) = quotient_of x;
          k = bitlen p - bitlen q
      in if 2 powi k \<le> x then k else k - 1)"

text \<open>Rounding to the nearest integer, a tie to the even one.\<close>

definition round_half_even :: "rat \<Rightarrow> int" where
  "round_half_even r =
     (let f = \<lfloor>r\<rfloor>; d = r - of_int f
      in if d < 1 / 2 then f else if 1 / 2 < d then f + 1 else if even f then f else f + 1)"

text \<open>The exponent of the unit in the last place of the float nearest to \<open>x\<close>.\<close>

definition ulp_exponent :: "rat \<Rightarrow> int" where
  "ulp_exponent x = max (floor_log2 \<bar>x\<bar> - 52) (- 1074)"

text \<open>The float nearest to \<open>x\<close>.\<close>

definition fl :: "rat \<Rightarrow> rat" where
  "fl x =
     (if x = 0 then 0
      else let e = ulp_exponent x;
               m = round_half_even (\<bar>x\<bar> / 2 powi e)
           in sgn x * of_int m * 2 powi e)"

text \<open>\<^verbatim>\<open>a + b\<close>, \<^verbatim>\<open>a * b\<close> and \<^verbatim>\<open>a / b\<close> on floats; \<^verbatim>\<open>a / b\<close> on two integers also gives the
  float nearest to the quotient.\<close>

definition fadd :: "rat \<Rightarrow> rat \<Rightarrow> rat" where
  "fadd a b = fl (a + b)"

definition fmul :: "rat \<Rightarrow> rat \<Rightarrow> rat" where
  "fmul a b = fl (a * b)"

definition fdiv :: "rat \<Rightarrow> rat \<Rightarrow> rat" where
  "fdiv a b = fl (a / b)"

text \<open>\<^verbatim>\<open>0.8**i\<close>. The literal \<^verbatim>\<open>0.8\<close> is the float nearest to \<open>4/5\<close>, and the power is taken
  as the float nearest to the exact power of that float. (Python hands the operation to the C
  library's \<^verbatim>\<open>pow\<close>, which is accurate to the last place: its result is this float or,
  rarely and only for large exponents, a neighbour of it; like this one, it is \<open>1.0\<close> for
  \<open>i = 0\<close> and underflows to \<open>0.0\<close> for large \<open>i\<close>.)\<close>

definition fpow :: "nat \<Rightarrow> rat" where
  "fpow i = fl (fl (4 / 5) ^ i)"

text \<open>\<^verbatim>\<open>sum(xs)\<close> on floats: the elements are added to \<open>0\<close> one by one, from left to right,
  each addition rounded. (This is \<^verbatim>\<open>sum\<close> of CPython up to version 3.11; from version 3.12
  on \<^verbatim>\<open>sum\<close> carries a correction term for floats.)\<close>

definition fsum :: "rat list \<Rightarrow> rat" where
  "fsum xs = foldl fadd 0 xs"

subsection \<open>Histograms and relabelling\<close>

text \<open>\<^verbatim>\<open>collections.Counter(xs)\<close> and \<^verbatim>\<open>h.get(l, 0)\<close>.\<close>

definition counter_get :: "(string \<times> nat) list \<Rightarrow> string \<Rightarrow> nat" where
  "counter_get h l = (case map_of h l of None \<Rightarrow> 0 | Some c \<Rightarrow> c)"

definition Counter :: "string list \<Rightarrow> (string \<times> nat) list" where
  "Counter xs = fold (\<lambda>x h. AList.update x (counter_get h x + 1) h) xs []"

text \<open>A list of results that may each have raised: the first failure is the failure of
  the whole.\<close>

fun collect :: "'a option list \<Rightarrow> 'a list option" where
  "collect [] = Some []"
| "collect (None # xs) = None"
| "collect (Some x # xs) = (case collect xs of None \<Rightarrow> None | Some ys \<Rightarrow> Some (x # ys))"

text \<open>\<^verbatim>\<open>G.nodes[n]['wl_label']\<close>.\<close>

definition wl_of :: "DiGraph \<Rightarrow> string \<Rightarrow> string option" where
  "wl_of G n = (case map_of (nodes G) n of None \<Rightarrow> None | Some d \<Rightarrow> wl_label d)"

text \<open>The first loop: every node's \<^verbatim>\<open>wl_label\<close> becomes its \<^verbatim>\<open>type\<close>, or
  \<^verbatim>\<open>unknown\<close> when it has none.\<close>

definition init_wl :: "DiGraph \<Rightarrow> DiGraph" where
  "init_wl G =
     G\<lparr>nodes := map (\<lambda>(n, d). (n, d\<lparr>wl_label :=
                     Some (case type d of None \<Rightarrow> ''unknown'' | Some t \<Rightarrow> t)\<rparr>)) (nodes G)\<rparr>"

definition histogram :: "DiGraph \<Rightarrow> (string \<times> nat) list option" where
  "histogram G = map_option Counter (collect (map (wl_of G) (map fst (nodes G))))"

text \<open>\<^verbatim>\<open>G.neighbors(n)\<close>: the successors of \<open>n\<close>, in the order their edges were added.\<close>

definition neighbors :: "DiGraph \<Rightarrow> string \<Rightarrow> string list" where
  "neighbors G n = map (\<lambda>e. snd (fst e)) (filter (\<lambda>e. fst (fst e) = n) (edges G))"

text \<open>One entry of the neighbour list: the neighbour's label, an underscore, and
  \<^verbatim>\<open>G.edges[n, nb].get('type', 'default')\<close>.\<close>

definition neighbor_label :: "DiGraph \<Rightarrow> string \<Rightarrow> string \<Rightarrow> string option" where
  "neighbor_label G n nb =
     (case wl_of G nb of
        None \<Rightarrow> None
      | Some l \<Rightarrow>
          (case map_of (edges G) (n, nb) of
             None \<Rightarrow> None
           | Some t \<Rightarrow> Some (l @ ''_'' @ (case t of None \<Rightarrow> ''default'' | Some k \<Rightarrow> k))))"

definition new_label :: "DiGraph \<Rightarrow> string \<Rightarrow> string option" where
  "new_label G n =
     (case wl_of G n of
        None \<Rightarrow> None
      | Some current \<Rightarrow>
          (case collect (map (neighbor_label G n) (neighbors G n)) of
             None \<Rightarrow> None
           | Some nbs \<Rightarrow>
               (let sorted_nbs = sort nbs
                in Some (current @ ''|'' @
                     (if sorted_nbs = [] then ''LEAF'' else join ''-'' sorted_nbs)))))"

text \<open>\<^verbatim>\<open>relabel(G)\<close>: all new labels are computed from the old ones, then written.\<close>

definition set_wl :: "string \<times> string \<Rightarrow> (string \<times> node_data) list \<Rightarrow> (string \<times> node_data) list" where
  "set_wl p ns = AList.map_entry (fst p) (\<lambda>d. d\<lparr>wl_label := Some (snd p)\<rparr>) ns"

definition relabel :: "DiGraph \<Rightarrow> DiGraph option" where
  "relabel G =
     (case collect (map (\<lambda>n. map_option (Pair n) (new_label G n)) (map fst (nodes G))) of
        None \<Rightarrow> None
      | Some new_labels \<Rightarrow> Some (G\<lparr>nodes := fold set_wl new_labels (nodes G)\<rparr>))"

text \<open>The \<^verbatim>\<open>for _ in range(h)\<close> loop, on two graphs that are different objects: the
  histogram lists grow by one entry per round.\<close>

fun wl_rounds :: "nat \<Rightarrow> DiGraph \<Rightarrow> DiGraph \<Rightarrow> (string \<times> nat) list list \<Rightarrow>
    (string \<times> nat) list list \<Rightarrow> ((string \<times> nat) list list \<times> (string \<times> nat) list list) option" where
  "wl_rounds 0 G1 G2 G1_hist G2_hist = Some (G1_hist, G2_hist)"
| "wl_rounds (Suc k) G1 G2 G1_hist G2_hist =
     (case relabel G1 of None \<Rightarrow> None | Some G1' \<Rightarrow>
      case relabel G2 of None \<Rightarrow> None | Some G2' \<Rightarrow>
      case histogram G1' of None \<Rightarrow> None | Some a \<Rightarrow>
      case histogram G2' of None \<Rightarrow> None | Some b \<Rightarrow>
        wl_rounds k G1' G2' (G1_hist @ [a]) (G2_hist @ [b]))"

text \<open>The same loop when both arguments are one and the same object: \<^verbatim>\<open>relabel\<close> runs
  twice on it in every round, and both histograms are taken from it afterwards.\<close>

fun wl_rounds_same :: "nat \<Rightarrow> DiGraph \<Rightarrow> (string \<times> nat) list list \<Rightarrow>
    (string \<times> nat) list list \<Rightarrow> ((string \<times> nat) list list \<times> (string \<times> nat) list list) option" where
  "wl_rounds_same 0 G G1_hist G2_hist = Some (G1_hist, G2_hist)"
| "wl_rounds_same (Suc k) G G1_hist G2_hist =
     (case relabel G of None \<Rightarrow> None | Some G' \<Rightarrow>
      case relabel G' of None \<Rightarrow> None | Some G'' \<Rightarrow>
      case histogram G'' of None \<Rightarrow> None | Some a \<Rightarrow>
        wl_rounds_same k G'' (G1_hist @ [a]) (G2_hist @ [a]))"

subsection \<open>Weights and score\<close>

text \<open>The normalised weights. \<^verbatim>\<open>range(h+1)\<close> is empty for a negative \<open>h\<close>; otherwise the
  first power is \<open>1.0\<close>, so the total is not zero and the division does not raise.\<close>

definition weights :: "int \<Rightarrow> rat list" where
  "weights h =
     (let ws = map fpow [0..<nat (h + 1)];
          total_weight = fsum ws
      in map (\<lambda>w. fdiv w total_weight) ws)"

text \<open>The weighted Jaccard similarity of two histograms. The two sums are sums of
  integers, so the order in which Python walks the set of labels does not change them;
  the quotient of the two integers is a float.\<close>

definition round_similarity :: "(string \<times> nat) list \<Rightarrow> (string \<times> nat) list \<Rightarrow> rat" where
  "round_similarity h1 h2 =
     (let all_labels = remdups (map fst h1 @ map fst h2);
          intersect = sum_list (map (\<lambda>l. min (counter_get h1 l) (counter_get h2 l)) all_labels);
          union = sum_list (map (\<lambda>l. max (counter_get h1 l) (counter_get h2 l)) all_labels)
      in if union > 0 then fdiv (of_nat intersect) (of_nat union) else 0)"

text \<open>The last loop: \<^verbatim>\<open>similarity\<close> starts at \<open>0.0\<close> and every round adds its weight times
  its similarity.\<close>

definition weighted_sum :: "int \<Rightarrow> (string \<times> nat) list list \<Rightarrow> (string \<times> nat) list list \<Rightarrow> rat" where
  "weighted_sum h G1_hist G2_hist =
     (let ws = weights h
      in foldl (\<lambda>similarity i.
                  fadd similarity (fmul (ws ! i) (round_similarity (G1_hist ! i) (G2_hist ! i))))
               0 [0..<nat (h + 1)])"

definition weisfeiler_lehman_kernel :: "DiGraph \<Rightarrow> DiGraph \<Rightarrow> int \<Rightarrow> rat option" where
  "weisfeiler_lehman_kernel G1 G2 h =
     (let G1a = init_wl G1; G2a = init_wl G2
      in case histogram G1a of None \<Rightarrow> None | Some a \<Rightarrow>
         case histogram G2a of None \<Rightarrow> None | Some b \<Rightarrow>
         case wl_rounds (nat h) G1a G2a [a] [b] of
           None \<Rightarrow> None
         | Some (G1_hist, G2_hist) \<Rightarrow> Some (weighted_sum h G1_hist G2_hist))"

text \<open>The call \<^verbatim>\<open>weisfeiler_lehman_kernel(G, G, h)\<close> on one object.\<close>

definition weisfeiler_lehman_kernel_same :: "DiGraph \<Rightarrow> int \<Rightarrow> rat option" where
  "weisfeiler_lehman_kernel_same G h =
     (let Ga = init_wl (init_wl G)
      in case histogram Ga of None \<Rightarrow> None | Some a \<Rightarrow>
         case wl_rounds_same (nat h) Ga [a] [a] of
           None \<Rightarrow> None
         | Some (G1_hist, G2_hist) \<Rightarrow> Some (weighted_sum h G1_hist G2_hist))"

text \<open>A graph built through the library's interface has both endpoints of every edge
  among its nodes.\<close>

definition well_formed :: "DiGraph \<Rightarrow> bool" where
  "well_formed G =
     list_all (\<lambda>e. fst (fst e) \<in> set (map fst (nodes G)) \<and> snd (fst e) \<in> set (map fst (nodes G)))
              (edges G)"

section \<open>Programs used as examples\<close>

text \<open>\<^verbatim>\<open>int x = 5; return x;\<close> The declaration's type is a \<^verbatim>\<open>TypeDecl\<close> over an
  \<^verbatim>\<open>IdentifierType\<close>.\<close>

definition decl_then_return :: node where
  "decl_then_return =
     Compound (Some [Decl (Some ''x'') (Other [Other []]) (Some (Constant ''5'')) None,
                     Return (Some (ID ''x''))])"

text \<open>\<^verbatim>\<open>x = 5; return x + 1;\<close>\<close>

definition assign_then_return :: node where
  "assign_then_return =
     Compound (Some [Assignment ''='' (ID ''x'') (Constant ''5''),
                     Return (Some (BinaryOp ''+'' (ID ''x'') (Constant ''1'')))])"

text \<open>\<^verbatim>\<open>x = 5; return x;\<close>\<close>

definition assign_then_bare_return :: node where
  "assign_then_bare_return =
     Compound (Some [Assignment ''='' (ID ''x'') (Constant ''5''),
                     Return (Some (ID ''x''))])"

text \<open>\<^verbatim>\<open>x = x + 1;\<close>\<close>

definition self_assign :: node where
  "self_assign =
     Compound (Some [Assignment ''='' (ID ''x'') (BinaryOp ''+'' (ID ''x'') (Constant ''1''))])"

text \<open>\<^verbatim>\<open>x = 5;\<close> and \<^verbatim>\<open>return x + 1;\<close> as two separate trees.\<close>

definition only_assign :: node where
  "only_assign = Compound (Some [Assignment ''='' (ID ''x'') (Constant ''5'')])"

definition only_return :: node where
  "only_return = Compound (Some [Return (Some (BinaryOp ''+'' (ID ''x'') (Constant ''1'')))])"


text \<open>\<^verbatim>\<open>if (c) ;\<close> The branch is an \<^verbatim>\<open>EmptyStatement\<close>, a class the Builder has no
  method for.\<close>

definition if_empty_branch :: node where
  "if_empty_branch = If (ID ''c'') (Some (Other [])) None"

text \<open>Two small graphs for the Scorer.\<close>

definition two_node_graph :: DiGraph where
  "two_node_graph =
     \<lparr>nodes = [(''n0'', \<lparr>label = Some ''x = 5'', type = Some ''assign'', wl_label = None\<rparr>),
               (''n1'', \<lparr>label = Some ''Return'', type = Some ''return'', wl_label = None\<rparr>)],
      edges = [((''n0'', ''n1''), Some ''control'')]\<rparr>"

definition one_node_graph :: DiGraph where
  "one_node_graph =
     \<lparr>nodes = [(''n0'', \<lparr>label = Some ''Return'', type = Some ''return'', wl_label = None\<rparr>)],
      edges = []\<rparr>"

section \<open>Relations between two states of a run\<close>

text \<open>\<open>extends v v'\<close>: from \<open>v\<close> to \<open>v'\<close> the counter has not gone back, no node, no
  connected pair and no name of the last-assignment map has been lost, and the edges among
  the nodes numbered below \<open>v\<close>'s counter are what they were.\<close>

definition extends :: "Visitor \<Rightarrow> Visitor \<Rightarrow> bool" where
  "extends v v' \<longleftrightarrow>
     node_id (outer v) \<le> node_id (outer v') \<and>
     fst ` set (nodes (pdg (outer v))) \<subseteq> fst ` set (nodes (pdg (outer v'))) \<and>
     fst ` set (edges (pdg (outer v))) \<subseteq> fst ` set (edges (pdg (outer v'))) \<and>
     fst ` set (last_assignment (outer v)) \<subseteq> fst ` set (last_assignment (outer v')) \<and>
     (\<forall>i j. i < node_id (outer v) \<longrightarrow> j < node_id (outer v) \<longrightarrow>
        map_of (edges (pdg (outer v'))) (node_name i, node_name j) =
        map_of (edges (pdg (outer v))) (node_name i, node_name j))"

section \<open>Notions used in the statements about the Scorer\<close>

text \<open>All nodes carry a \<^verbatim>\<open>wl_label\<close>.\<close>

definition labelled :: "DiGraph \<Rightarrow> bool" where
  "labelled G = list_all (\<lambda>p. wl_label (snd p) \<noteq> None) (nodes G)"

text \<open>A histogram that counts at least one label.\<close>

definition positive_hist :: "(string \<times> nat) list \<Rightarrow> bool" where
  "positive_hist h = list_ex (\<lambda>l. 0 < counter_get h l) (map fst h)"

text \<open>The number of elements of a list of floats that are not zero: adding a zero to a
  float is exact, so only these count for the rounding error of a sum.\<close>

definition nonzeros :: "rat list \<Rightarrow> nat" where
  "nonzeros xs = length (filter (\<lambda>x. x \<noteq> 0) xs)"

section \<open>The Builder: how a visit changes the state\<close>

subsection \<open>Node names are distinct\<close>

lemma digit_inj: "a < 10 \<Longrightarrow> b < 10 \<Longrightarrow> digit a = digit b \<Longrightarrow> a = b"
proof -
  assume a: "a < 10" and b: "b < 10" and e: "digit a = digit b"
  from a have "a \<in> {0, 1, 2, 3, 4, 5, 6, 7, 8, 9}" by auto
  moreover from b have "b \<in> {0, 1, 2, 3, 4, 5, 6, 7, 8, 9}" by auto
  ultimately show ?thesis using e by (auto simp: digit_def)
qed

lemma str_nat_nonempty: "str_nat n \<noteq> []"
  by (subst str_nat.simps) simp

lemma str_nat_inj: "str_nat a = str_nat b \<Longrightarrow> a = b"
proof (induction a arbitrary: b rule: str_nat.induct)
  case (1 n)
  show ?case
  proof (cases "n < 10")
    case small: True
    show ?thesis
    proof (cases "b < 10")
      case True
      with small "1.prems" show ?thesis
        by (simp add: str_nat.simps [of n] str_nat.simps [of b] digit_inj)
    next
      case False
      with small "1.prems" str_nat_nonempty [of "b div 10"] show ?thesis
        by (simp add: str_nat.simps [of n] str_nat.simps [of b] Cons_eq_append_conv)
    qed
  next
    case big: False
    show ?thesis
    proof (cases "b < 10")
      case True
      with big "1.prems" str_nat_nonempty [of "n div 10"] show ?thesis
        by (simp add: str_nat.simps [of n] str_nat.simps [of b] append_eq_Cons_conv)
    next
      case False
      with big "1.prems" have e: "str_nat (n div 10) = str_nat (b div 10)"
        and d: "digit (n mod 10) = digit (b mod 10)"
        by (simp_all add: str_nat.simps [of n] str_nat.simps [of b])
      from "1.IH" [OF big e] have "n div 10 = b div 10" .
      moreover from d have "n mod 10 = b mod 10" by (simp add: digit_inj)
      ultimately show ?thesis by (metis div_mult_mod_eq)
    qed
  qed
qed

lemma node_name_inj [simp]: "node_name a = node_name b \<longleftrightarrow> a = b"
  by (auto simp: node_name_def dest: str_nat_inj)

subsection \<open>The relation \<open>extends\<close> holds along every step\<close>

lemma extends_refl: "extends v v"
  by (simp add: extends_def)

lemma extends_trans:
  assumes ab: "extends a b" and bc: "extends b c"
  shows "extends a c"
proof -
  have le: "node_id (outer a) \<le> node_id (outer b)" "node_id (outer b) \<le> node_id (outer c)"
    using ab bc by (simp_all add: extends_def)
  have old: "map_of (edges (pdg (outer c))) (node_name i, node_name j) =
             map_of (edges (pdg (outer a))) (node_name i, node_name j)"
    if "i < node_id (outer a)" "j < node_id (outer a)" for i j
  proof -
    from that le have "i < node_id (outer b)" "j < node_id (outer b)" by simp_all
    with bc have "map_of (edges (pdg (outer c))) (node_name i, node_name j) =
                  map_of (edges (pdg (outer b))) (node_name i, node_name j)"
      by (simp add: extends_def)
    also from ab that have "\<dots> = map_of (edges (pdg (outer a))) (node_name i, node_name j)"
      by (simp add: extends_def)
    finally show ?thesis .
  qed
  have n1: "fst ` set (nodes (pdg (outer a))) \<subseteq> fst ` set (nodes (pdg (outer b)))"
    using ab by (simp add: extends_def)
  have n2: "fst ` set (nodes (pdg (outer b))) \<subseteq> fst ` set (nodes (pdg (outer c)))"
    using bc by (simp add: extends_def)
  have e1: "fst ` set (edges (pdg (outer a))) \<subseteq> fst ` set (edges (pdg (outer b)))"
    using ab by (simp add: extends_def)
  have e2: "fst ` set (edges (pdg (outer b))) \<subseteq> fst ` set (edges (pdg (outer c)))"
    using bc by (simp add: extends_def)
  have l1: "fst ` set (last_assignment (outer a)) \<subseteq> fst ` set (last_assignment (outer b))"
    using ab by (simp add: extends_def)
  have l2: "fst ` set (last_assignment (outer b)) \<subseteq> fst ` set (last_assignment (outer c))"
    using bc by (simp add: extends_def)
  show ?thesis
    unfolding extends_def
    using le old subset_trans [OF n1 n2] subset_trans [OF e1 e2] subset_trans [OF l1 l2]
    by simp
qed

lemma ensure_node_keys: "fst ` set (ensure_node n ns) = insert n (fst ` set ns)"
proof (cases "map_of ns n")
  case None
  then show ?thesis by (simp add: ensure_node_def)
next
  case (Some d)
  then have "n \<in> fst ` set ns"
    by (metis map_of_eq_None_iff option.distinct(1))
  with Some show ?thesis by (auto simp: ensure_node_def)
qed

lemma nx_add_node_keys: "fst ` set (nodes (nx_add_node n l t G)) = insert n (fst ` set (nodes G))"
  by (simp add: nx_add_node_def Let_def dom_update)

lemma nx_add_node_edges [simp]: "edges (nx_add_node n l t G) = edges G"
  by (simp add: nx_add_node_def Let_def)

lemma nx_add_edge_keys:
  "fst ` set (nodes (nx_add_edge u w t G)) = insert w (insert u (fst ` set (nodes G)))"
  by (simp add: nx_add_edge_def ensure_node_keys)

lemma nx_add_edge_edges [simp]:
  "edges (nx_add_edge u w t G) = AList.update (u, w) (Some t) (edges G)"
  by (simp add: nx_add_edge_def)

lemma fst_add_node [simp]: "fst (add_node l k v) = node_name (node_id (outer v))"
  by (simp add: add_node_def Let_def)

lemma counter_add_node [simp]:
  "node_id (outer (snd (add_node l k v))) = Suc (node_id (outer v))"
  by (simp add: add_node_def Let_def)

lemma cursor_add_node [simp]:
  "current_node (snd (add_node l k v)) = Some (node_name (node_id (outer v)))"
  by (simp add: add_node_def Let_def)

lemma last_add_node [simp]:
  "last_assignment (outer (snd (add_node l k v))) = last_assignment (outer v)"
  by (simp add: add_node_def Let_def)

lemma extends_add_node_self: "extends v (snd (add_node l k v))"
  by (cases "current_node v")
     (auto simp: extends_def add_node_def Let_def nx_add_node_keys nx_add_edge_keys dom_update
        update_conv')

lemma extends_add_node: "extends v0 v \<Longrightarrow> extends v0 (snd (add_node l k v))"
  by (rule extends_trans [OF _ extends_add_node_self])

lemma extends_cursor: "extends v0 v \<Longrightarrow> extends v0 (v\<lparr>current_node := c\<rparr>)"
  by (simp add: extends_def)

lemma extends_last: "extends v0 v \<Longrightarrow> extends v0 (set_last_assignment x n v)"
  by (auto simp: extends_def set_last_assignment_def dom_update)

lemma extends_add_edge_tgt:
  "extends v0 v \<Longrightarrow> node_id (outer v0) \<le> a \<Longrightarrow> extends v0 (pdg_add_edge u (node_name a) t v)"
  by (auto simp: extends_def pdg_add_edge_def nx_add_edge_keys dom_update update_conv')

lemma extends_add_edge_src:
  "extends v0 v \<Longrightarrow> node_id (outer v0) \<le> a \<Longrightarrow> extends v0 (pdg_add_edge (node_name a) w t v)"
  by (auto simp: extends_def pdg_add_edge_def nx_add_edge_keys dom_update update_conv')

lemma extends_enter_branch: "extends v0 v \<Longrightarrow> extends v0 (enter_branch c v)"
  by (simp add: enter_branch_def extends_cursor)

lemma counter_pdg_add_edge [simp]: "node_id (outer (pdg_add_edge u w t v)) = node_id (outer v)"
  by (simp add: pdg_add_edge_def)

lemma cursor_pdg_add_edge [simp]: "current_node (pdg_add_edge u w t v) = current_node v"
  by (simp add: pdg_add_edge_def)

lemma last_pdg_add_edge [simp]:
  "last_assignment (outer (pdg_add_edge u w t v)) = last_assignment (outer v)"
  by (simp add: pdg_add_edge_def)

lemma extends_counter: "extends v0 v \<Longrightarrow> node_id (outer v0) \<le> node_id (outer v)"
  by (simp add: extends_def)

lemma visit_FuncCall_eq:
  "visit_FuncCall name args v =
     (node_name (node_id (outer v)),
      snd (add_node (''Call '' @ get_text name @ ''('' @
             join '', '' (case args of None \<Rightarrow> [] | Some exprs \<Rightarrow> map get_text exprs) @ '')'')
           ''func_call'' v))"
  by (simp add: visit_FuncCall_def Let_def prod_eq_iff)

lemma extends_visit_FuncCall: "extends v0 v \<Longrightarrow> extends v0 (snd (visit_FuncCall name args v))"
  by (simp add: visit_FuncCall_eq extends_add_node)

lemma extends_visit_Decl: "extends v0 v \<Longrightarrow> extends v0 (visit_Decl name init v)"
proof -
  assume ext: "extends v0 v"
  note le = extends_counter [OF ext]
  show ?thesis
  proof (cases init)
    case None
    with ext show ?thesis
      by (simp add: visit_Decl_def case_prod_beta extends_add_node)
  next
    case (Some e)
    show ?thesis
    proof (cases "\<exists>fname fargs. e = FuncCall fname fargs")
      case True
      then obtain fname fargs where e: "e = FuncCall fname fargs" by blast
      from le have "node_id (outer v0) \<le> Suc (Suc (node_id (outer v)))" by simp
      with ext Some e show ?thesis
        by (simp add: visit_Decl_def case_prod_beta Let_def visit_FuncCall_eq
              extends_add_node extends_add_edge_src)
    next
      case False
      with ext Some show ?thesis
        by (cases e) (simp_all add: visit_Decl_def case_prod_beta Let_def extends_add_node)
    qed
  qed
qed

lemma extends_assign_step: "extends v0 v \<Longrightarrow> extends v0 (assign_step op lvalue rvalue v)"
proof -
  assume ext: "extends v0 v"
  note le = extends_counter [OF ext]
  show ?thesis
  proof (cases "\<exists>fname fargs. rvalue = FuncCall fname fargs")
    case True
    then obtain fname fargs where e: "rvalue = FuncCall fname fargs" by blast
    from le have "node_id (outer v0) \<le> Suc (node_id (outer v))" by simp
    with ext e show ?thesis
      by (simp add: assign_step_def case_prod_beta Let_def visit_FuncCall_eq
            extends_add_node extends_add_edge_src extends_last)
  next
    case False
    with ext show ?thesis
      by (cases rvalue)
         (simp_all add: assign_step_def case_prod_beta Let_def extends_add_node extends_last)
  qed
qed

lemma extends_visit_ID: "extends v0 v \<Longrightarrow> extends v0 (visit_ID name v)"
proof -
  assume ext: "extends v0 v"
  note le = extends_counter [OF ext]
  show ?thesis
  proof (cases "map_of (last_assignment (outer v)) name")
    case None
    with ext show ?thesis by (simp add: visit_ID_def)
  next
    case (Some d)
    with ext le show ?thesis
      by (simp add: visit_ID_def case_prod_beta Let_def extends_add_node extends_add_edge_tgt)
  qed
qed

lemma extends_leave_branch:
  "extends v0 v \<Longrightarrow> node_id (outer v0) \<le> a \<Longrightarrow> extends v0 (leave_branch (node_name a) old v)"
  by (cases "current_node v")
     (simp_all add: leave_branch_def extends_cursor extends_add_edge_src)

lemma add_node_pair: "add_node l k v = (node_name (node_id (outer v)), snd (add_node l k v))"
  by (simp add: prod_eq_iff)

lemma visit_If_unfold:
  "visit (If cond iftrue iffalse) v =
     (let c = node_name (node_id (outer v));
          v0 = snd (add_node (''If '' @ get_text cond @ ''?'') ''if'' v);
          v1 = (case iftrue of
                  None \<Rightarrow> v0
                | Some t \<Rightarrow> leave_branch c (Some c) (visit t (enter_branch c v0)))
      in case iffalse of
           None \<Rightarrow> v1
         | Some f \<Rightarrow> leave_branch c (current_node v1) (visit f (enter_branch c v1)))"
  by (cases iftrue; cases iffalse) (simp_all add: Let_def case_prod_beta)

subsection \<open>Every visit extends the state\<close>

lemma visit_extends_all:
  "\<forall>v0. extends v0 v \<longrightarrow> extends v0 (visit n v)"
  "\<forall>v0. extends v0 v2 \<longrightarrow> extends v0 (generic_visit n2 v2)"
  "\<forall>v0. extends v0 v3 \<longrightarrow> extends v0 (visit_opt o3 v3)"
  "\<forall>v0. extends v0 v4 \<longrightarrow> extends v0 (visit_each cs v4)"
proof (induction n v and n2 v2 and o3 v3 and cs v4
       rule: visit_generic_visit_visit_opt_visit_each.induct)
  case (1 name ty init bitsize v)
  show ?case by (simp add: extends_visit_Decl)
next
  case (2 op lvalue rvalue v)
  then show ?case by (simp add: extends_assign_step)
next
  case (3 name args v)
  show ?case by (simp add: extends_visit_FuncCall)
next
  case (4 cond iftrue iffalse v)
  define c where "c = node_name (node_id (outer v))"
  define v0 where "v0 = snd (add_node (''If '' @ get_text cond @ ''?'') ''if'' v)"
  define v1 where "v1 = (case iftrue of None \<Rightarrow> v0
     | Some t \<Rightarrow> let old = current_node v0
                in leave_branch c old (visit t (enter_branch c v0)))"
  have pair: "add_node (''If '' @ get_text cond @ ''?'') ''if'' v = (c, v0)"
    unfolding c_def v0_def by (rule add_node_pair)
  have res: "visit (If cond iftrue iffalse) v =
      (case iffalse of None \<Rightarrow> v1
       | Some f \<Rightarrow> leave_branch c (current_node v1) (visit f (enter_branch c v1)))"
    by (subst visit_If_unfold, cases iftrue; cases iffalse)
       (simp_all add: v1_def c_def v0_def Let_def del: visit.simps)
  show ?case
  proof (intro allI impI)
    fix u assume ext: "extends u v"
    then have le: "node_id (outer u) \<le> node_id (outer v)" by (rule extends_counter)
    from ext have e0: "extends u v0" unfolding v0_def by (rule extends_add_node)
    have e1: "extends u v1"
    proof (cases iftrue)
      case None
      with e0 show ?thesis by (simp add: v1_def)
    next
      case (Some t)
      from "4.IH"(1) [OF refl pair [symmetric] Some refl] extends_enter_branch [OF e0]
      have "extends u (visit t (enter_branch c v0))" by blast
      then have "extends u (leave_branch c (current_node v0) (visit t (enter_branch c v0)))"
        unfolding c_def using le by (rule extends_leave_branch)
      with Some show ?thesis by (simp add: v1_def)
    qed
    show "extends u (visit (If cond iftrue iffalse) v)"
    proof (cases iffalse)
      case None
      with e1 res show ?thesis by simp
    next
      case (Some f)
      from "4.IH"(2) [OF refl pair [symmetric] v1_def Some refl] extends_enter_branch [OF e1]
      have "extends u (visit f (enter_branch c v1))" by blast
      then have "extends u (leave_branch c (current_node v1) (visit f (enter_branch c v1)))"
        unfolding c_def using le by (rule extends_leave_branch)
      with Some res show ?thesis by simp
    qed
  qed
next
  case (5 v)
  show ?case by (simp add: extends_add_node)
next
  case (6 expr v)
  then show ?case by (simp add: extends_add_node)
next
  case (9 name v)
  show ?case by (simp add: extends_visit_ID)
qed simp_all

lemma visit_extends: "extends v (visit n v)"
  using visit_extends_all(1) [of v n] extends_refl by blast

subsection \<open>The counter and the cursor\<close>

lemma counter_mono:
  "node_id (outer v) \<le> node_id (outer (visit n v))"
  "node_id (outer v) \<le> node_id (outer (generic_visit n v))"
  "node_id (outer v) \<le> node_id (outer (visit_opt x v))"
  "node_id (outer v) \<le> node_id (outer (visit_each cs v))"
  using visit_extends_all(1) [of v n] visit_extends_all(2) [of v n]
    visit_extends_all(3) [of v x] visit_extends_all(4) [of v cs] extends_refl [of v]
  by (blast intro: extends_counter)+

lemma counter_enter_branch [simp]: "node_id (outer (enter_branch c v)) = node_id (outer v)"
  by (simp add: enter_branch_def)

lemma cursor_enter_branch [simp]: "current_node (enter_branch c v) = Some c"
  by (simp add: enter_branch_def)

lemma counter_leave_branch [simp]: "node_id (outer (leave_branch c old v)) = node_id (outer v)"
  by (cases "current_node v") (simp_all add: leave_branch_def)

lemma cursor_leave_branch [simp]: "current_node (leave_branch c old v) = old"
  by (cases "current_node v") (simp_all add: leave_branch_def)

lemma counter_set_last [simp]: "node_id (outer (set_last_assignment x n v)) = node_id (outer v)"
  by (simp add: set_last_assignment_def)

lemma cursor_set_last [simp]: "current_node (set_last_assignment x n v) = current_node v"
  by (simp add: set_last_assignment_def)

lemma counter_visit_FuncCall [simp]:
  "node_id (outer (snd (visit_FuncCall name args v))) = Suc (node_id (outer v))"
  by (simp add: visit_FuncCall_eq)

lemma cursor_visit_FuncCall [simp]:
  "current_node (snd (visit_FuncCall name args v)) = Some (node_name (node_id (outer v)))"
  by (simp add: visit_FuncCall_eq)

lemma counter_visit_Decl: "node_id (outer v) < node_id (outer (visit_Decl name init v))"
  by (simp add: visit_Decl_def case_prod_beta Let_def visit_FuncCall_eq
        split: option.splits node.splits)

lemma cursor_visit_Decl: "current_node (visit_Decl name init v) \<noteq> None"
  by (simp add: visit_Decl_def case_prod_beta Let_def visit_FuncCall_eq
        split: option.splits node.splits)

lemma counter_assign_step: "node_id (outer v) < node_id (outer (assign_step op l r v))"
  by (simp add: assign_step_def case_prod_beta Let_def visit_FuncCall_eq split: node.splits)

lemma cursor_assign_step: "current_node (assign_step op l r v) \<noteq> None"
  by (simp add: assign_step_def case_prod_beta Let_def visit_FuncCall_eq split: node.splits)

lemma visit_ID_cases:
  "visit_ID name v = v \<or> node_id (outer v) < node_id (outer (visit_ID name v))"
  by (simp add: visit_ID_def case_prod_beta Let_def split: option.splits)

lemma cursor_visit_ID: "current_node v \<noteq> None \<Longrightarrow> current_node (visit_ID name v) \<noteq> None"
  by (simp add: visit_ID_def case_prod_beta Let_def split: option.splits)

lemma cursor_visit_If:
  "current_node (visit (If cond iftrue iffalse) v) = Some (node_name (node_id (outer v)))"
  by (subst visit_If_unfold, cases iftrue; cases iffalse) (simp_all add: Let_def del: visit.simps)

lemma counter_visit_If: "node_id (outer v) < node_id (outer (visit (If cond iftrue iffalse) v))"
proof -
  define c where "c = node_name (node_id (outer v))"
  define v0 where "v0 = snd (add_node (''If '' @ get_text cond @ ''?'') ''if'' v)"
  define v1 where "v1 = (case iftrue of None \<Rightarrow> v0
     | Some t \<Rightarrow> leave_branch c (Some c) (visit t (enter_branch c v0)))"
  have c0: "node_id (outer v) < node_id (outer v0)" by (simp add: v0_def)
  have "node_id (outer v0) \<le> node_id (outer v1)"
  proof (cases iftrue)
    case None
    then show ?thesis by (simp add: v1_def)
  next
    case (Some t)
    with counter_mono(1) [of "enter_branch c v0" t] show ?thesis by (simp add: v1_def)
  qed
  with c0 have c1: "node_id (outer v) < node_id (outer v1)" by simp
  have res: "visit (If cond iftrue iffalse) v =
      (case iffalse of None \<Rightarrow> v1
       | Some f \<Rightarrow> leave_branch c (current_node v1) (visit f (enter_branch c v1)))"
    by (subst visit_If_unfold, cases iftrue; cases iffalse)
       (simp_all add: v1_def c_def v0_def Let_def del: visit.simps)
  show ?thesis
  proof (cases iffalse)
    case None
    with c1 res show ?thesis by simp
  next
    case (Some f)
    with counter_mono(1) [of "enter_branch c v1" f] c1 res show ?thesis by simp
  qed
qed

text \<open>A visit that creates no node changes nothing at all.\<close>

lemma visit_silent_all:
  "node_id (outer (visit n v)) = node_id (outer v) \<longrightarrow> visit n v = v"
  "node_id (outer (generic_visit n2 v2)) = node_id (outer v2) \<longrightarrow> generic_visit n2 v2 = v2"
  "node_id (outer (visit_opt o3 v3)) = node_id (outer v3) \<longrightarrow> visit_opt o3 v3 = v3"
  "node_id (outer (visit_each cs v4)) = node_id (outer v4) \<longrightarrow> visit_each cs v4 = v4"
proof (induction n v and n2 v2 and o3 v3 and cs v4
       rule: visit_generic_visit_visit_opt_visit_each.induct)
  case (1 name ty init bitsize v)
  from counter_visit_Decl [of v name init] show ?case by simp
next
  case (2 op lvalue rvalue v)
  from counter_assign_step [of v op lvalue rvalue]
    counter_mono(2) [of "assign_step op lvalue rvalue v" rvalue]
  show ?case by simp
next
  case (3 name args v)
  show ?case by simp
next
  case (4 cond iftrue iffalse v)
  from counter_visit_If [of v cond iftrue iffalse] show ?case by simp
next
  case (5 v)
  show ?case by simp
next
  case (6 expr v)
  from counter_mono(2) [of "snd (add_node (''Return '' @ get_text expr) ''return'' v)" expr]
  show ?case by simp
next
  case (9 name v)
  from visit_ID_cases [of name v] show ?case by auto
next
  case (17 op left right v)
  from counter_mono(1) [of v left] counter_mono(1) [of "visit left v" right] "17.IH"
  show ?case by auto
next
  case (19 op lvalue rvalue v)
  from counter_mono(1) [of v lvalue] counter_mono(1) [of "visit lvalue v" rvalue] "19.IH"
  show ?case by auto
next
  case (21 name exprs v)
  from counter_mono(1) [of v name] counter_mono(4) [of "visit name v" exprs] "21.IH"
  show ?case by auto
next
  case (22 name ty init bitsize v)
  from counter_mono(1) [of v ty] counter_mono(3) [of "visit ty v" init]
    counter_mono(3) [of "visit_opt init (visit ty v)" bitsize] "22.IH"
  show ?case by auto
next
  case (23 cond iftrue iffalse v)
  from counter_mono(1) [of v cond] counter_mono(3) [of "visit cond v" iftrue]
    counter_mono(3) [of "visit_opt iftrue (visit cond v)" iffalse] "23.IH"
  show ?case by auto
next
  case (32 c cs v)
  from counter_mono(1) [of v c] counter_mono(4) [of "visit c v" cs] "32.IH"
  show ?case by auto
qed simp_all

text \<open>Once set, the cursor is never \<^verbatim>\<open>None\<close> again, so \<open>leave_branch\<close> always finds a
  node to link the \<^verbatim>\<open>if\<close> node to.\<close>

lemma visit_cursor_all:
  "current_node v \<noteq> None \<longrightarrow> current_node (visit n v) \<noteq> None"
  "current_node v2 \<noteq> None \<longrightarrow> current_node (generic_visit n2 v2) \<noteq> None"
  "current_node v3 \<noteq> None \<longrightarrow> current_node (visit_opt o3 v3) \<noteq> None"
  "current_node v4 \<noteq> None \<longrightarrow> current_node (visit_each cs v4) \<noteq> None"
proof (induction n v and n2 v2 and o3 v3 and cs v4
       rule: visit_generic_visit_visit_opt_visit_each.induct)
  case (1 name ty init bitsize v)
  show ?case by (simp add: cursor_visit_Decl)
next
  case (2 op lvalue rvalue v)
  then show ?case by (simp add: cursor_assign_step)
next
  case (4 cond iftrue iffalse v)
  show ?case by (simp only: cursor_visit_If) simp
next
  case (9 name v)
  show ?case by (simp add: cursor_visit_ID)
qed simp_all

section \<open>The Builder: claims\<close>

text \<open>
  Claim C1. The claim expects, for \<^verbatim>\<open>int x = 5; return x;\<close>, that the declaration enters
  \<open>x\<close> in the last-assignment map at its assign node and that the return emits a node
  \<^verbatim>\<open>Use x\<close> with a data edge from the assign node. The run emits the three nodes
  \<^verbatim>\<open>decl\<close>, \<^verbatim>\<open>assign\<close>, \<^verbatim>\<open>return\<close> only, two control edges, no \<^verbatim>\<open>use\<close> node and no data
  edge, and leaves the map empty: \<^verbatim>\<open>visit_Decl\<close> builds the same \<^verbatim>\<open>assign\<close> node as
  \<^verbatim>\<open>visit_Assignment\<close> but lacks its write to the map, and \<^verbatim>\<open>visit_Return\<close> visits the
  children of the returned expression, of which a bare identifier has none. The two
  other runs show each step working where the sibling path is taken: after the assignment
  \<^verbatim>\<open>x = 5;\<close> the map holds \<open>x\<close>, yet \<^verbatim>\<open>return x;\<close> still emits no \<^verbatim>\<open>use\<close> node, while
  \<^verbatim>\<open>return x + 1;\<close> emits \<^verbatim>\<open>Use x\<close> and the data edge from the assign node.
\<close>

theorem C1_declared_variable_is_not_recorded:
  "fst (generate decl_then_return new_PDGGenerator) =
     \<lparr>nodes = [(''n0'', \<lparr>label = Some ''Decl x'', type = Some ''decl'', wl_label = None\<rparr>),
               (''n1'', \<lparr>label = Some ''x = 5'', type = Some ''assign'', wl_label = None\<rparr>),
               (''n2'', \<lparr>label = Some ''Return x'', type = Some ''return'', wl_label = None\<rparr>)],
      edges = [((''n0'', ''n1''), Some ''control''), ((''n1'', ''n2''), Some ''control'')]\<rparr> \<and>
   last_assignment (snd (generate decl_then_return new_PDGGenerator)) = [] \<and>
   fst (generate assign_then_bare_return new_PDGGenerator) =
     \<lparr>nodes = [(''n0'', \<lparr>label = Some ''x = 5'', type = Some ''assign'', wl_label = None\<rparr>),
               (''n1'', \<lparr>label = Some ''Return x'', type = Some ''return'', wl_label = None\<rparr>)],
      edges = [((''n0'', ''n1''), Some ''control'')]\<rparr> \<and>
   last_assignment (snd (generate assign_then_bare_return new_PDGGenerator)) = [(''x'', ''n0'')] \<and>
   fst (generate assign_then_return new_PDGGenerator) =
     \<lparr>nodes = [(''n0'', \<lparr>label = Some ''x = 5'', type = Some ''assign'', wl_label = None\<rparr>),
               (''n1'', \<lparr>label = Some ''Return (x + 1)'', type = Some ''return'', wl_label = None\<rparr>),
               (''n2'', \<lparr>label = Some ''Use x'', type = Some ''use'', wl_label = None\<rparr>)],
      edges = [((''n0'', ''n1''), Some ''control''), ((''n1'', ''n2''), Some ''control''),
               ((''n0'', ''n2''), Some ''data'')]\<rparr> \<and>
   last_assignment (snd (generate assign_then_return new_PDGGenerator)) = [(''x'', ''n0'')]"
  by code_simp

text \<open>\<^verbatim>\<open>visit_Decl\<close> has no write to the map on any of its paths, and the visit of a
  return of a bare identifier adds the return node and nothing else.\<close>

lemma last_visit_Decl:
  "last_assignment (outer (visit_Decl name init v)) = last_assignment (outer v)"
  by (simp add: visit_Decl_def case_prod_beta Let_def visit_FuncCall_eq
        split: option.splits node.splits)

lemma visit_Return_ID:
  "visit (Return (Some (ID x))) v = snd (add_node (''Return '' @ x) ''return'' v)"
  by simp

text \<open>
  Claim C3 asks for N - 1 control edges in a run without branching that creates N nodes,
  also when a data edge is added between two consecutive nodes. The run on \<^verbatim>\<open>x = x + 1;\<close>
  creates two nodes: \<open>add_node\<close> links them by a control edge, and \<open>visit_ID\<close> then stores
  the kind \<^verbatim>\<open>data\<close> on the same ordered pair, so the finished graph has no control edge at
  all.
\<close>

theorem C3_self_assignment_has_no_control_edge:
  "map fst (nodes (fst (generate self_assign new_PDGGenerator))) = [''n0'', ''n1''] \<and>
   edges_of_kind ''control'' (fst (generate self_assign new_PDGGenerator)) = [] \<and>
   edges_of_kind ''data'' (fst (generate self_assign new_PDGGenerator)) = [(''n0'', ''n1'')]"
  by code_simp

text \<open>
  Claim C4 asks that a control edge and a data edge between the same ordered pair
  coexist. In the run on \<^verbatim>\<open>x = x + 1;\<close> the pair \<open>(n0, n1)\<close> carries the kind
  \<^verbatim>\<open>control\<close> once the use node has been created, and the kind \<^verbatim>\<open>data\<close>, alone, once
  \<open>visit_ID\<close> has added its edge; the graph handed back has the data edge only.
\<close>

theorem C4_data_edge_overwrites_control_edge:
  "edges (pdg (outer (snd (add_node ''Use x'' ''use''
      (assign_step ''='' (ID ''x'') (BinaryOp ''+'' (ID ''x'') (Constant ''1''))
         (new_Visitor new_PDGGenerator)))))) = [((''n0'', ''n1''), Some ''control'')] \<and>
   edges (pdg (outer (visit_ID ''x''
      (assign_step ''='' (ID ''x'') (BinaryOp ''+'' (ID ''x'') (Constant ''1''))
         (new_Visitor new_PDGGenerator))))) = [((''n0'', ''n1''), Some ''data'')] \<and>
   edges (fst (generate self_assign new_PDGGenerator)) = [((''n0'', ''n1''), Some ''data'')]"
  by code_simp

text \<open>
  Claim C7, as stated, fails for a second call on the same generator. After a run on
  \<^verbatim>\<open>x = 5;\<close>, the run on \<^verbatim>\<open>return x + 1;\<close> hands back a graph that still holds the first
  run's node \<open>n0\<close>, numbers its own nodes from \<open>n1\<close>, and finds \<open>x\<close> in the map, so it
  emits \<^verbatim>\<open>Use x\<close> with a data edge from \<open>n0\<close>. On a new generator the same tree gives one
  node and no edge.
\<close>

theorem C7_second_run_counterexample:
  "fst (generate only_return (snd (generate only_assign new_PDGGenerator))) =
     \<lparr>nodes = [(''n0'', \<lparr>label = Some ''x = 5'', type = Some ''assign'', wl_label = None\<rparr>),
               (''n1'', \<lparr>label = Some ''Return (x + 1)'', type = Some ''return'', wl_label = None\<rparr>),
               (''n2'', \<lparr>label = Some ''Use x'', type = Some ''use'', wl_label = None\<rparr>)],
      edges = [((''n1'', ''n2''), Some ''control''), ((''n0'', ''n2''), Some ''data'')]\<rparr> \<and>
   fst (generate only_return new_PDGGenerator) =
     \<lparr>nodes = [(''n0'', \<lparr>label = Some ''Return (x + 1)'', type = Some ''return'', wl_label = None\<rparr>)],
      edges = []\<rparr>"
  by code_simp

text \<open>
  Claim C7, amended. A newly constructed generator has an empty graph, a counter at zero
  and an empty last-assignment map, and every call of \<open>generate\<close> starts with no current
  node. \<open>generate\<close> resets nothing else: the graph it returns is the generator's own, and
  every node, every connected pair and every name of the map that the generator held
  before the call is still there after it, with a counter that has not gone back. A run
  starts from fresh state when the generator object is new.
\<close>

theorem C7_state_belongs_to_the_generator:
  "pdg new_PDGGenerator = empty_DiGraph \<and> node_id new_PDGGenerator = 0 \<and>
   last_assignment new_PDGGenerator = [] \<and>
   current_node (new_Visitor gen) = None \<and>
   fst (generate ast gen) = pdg (snd (generate ast gen)) \<and>
   node_id gen \<le> node_id (snd (generate ast gen)) \<and>
   fst ` set (nodes (pdg gen)) \<subseteq> fst ` set (nodes (fst (generate ast gen))) \<and>
   fst ` set (edges (pdg gen)) \<subseteq> fst ` set (edges (fst (generate ast gen))) \<and>
   fst ` set (last_assignment gen) \<subseteq> fst ` set (last_assignment (snd (generate ast gen)))"
proof -
  have "extends (new_Visitor gen) (visit ast (new_Visitor gen))" by (rule visit_extends)
  then show ?thesis
    by (simp add: extends_def generate_def Let_def new_Visitor_def new_PDGGenerator_def)
qed

subsection \<open>The conditional\<close>

lemma edges_pdg_add_edge [simp]:
  "edges (pdg (outer (pdg_add_edge u w t v))) = AList.update (u, w) (Some t) (edges (pdg (outer v)))"
  by (simp add: pdg_add_edge_def)

lemma edges_enter_branch [simp]: "edges (pdg (outer (enter_branch c v))) = edges (pdg (outer v))"
  by (simp add: enter_branch_def)





text \<open>Edges between two nodes that exist already are not touched by a later visit.\<close>

lemma old_edge_kept:
  "i < node_id (outer v) \<Longrightarrow> j < node_id (outer v) \<Longrightarrow>
   map_of (edges (pdg (outer (visit n v)))) (node_name i, node_name j) =
   map_of (edges (pdg (outer v))) (node_name i, node_name j)"
  using visit_extends [of v n] by (simp add: extends_def)

lemma self_loop_after_leave:
  "map_of (edges (pdg (outer v))) (c, c) = Some (Some ''control'') \<or> current_node v = Some c \<Longrightarrow>
   current_node v \<noteq> None \<Longrightarrow>
   map_of (edges (pdg (outer (leave_branch c old v)))) (c, c) = Some (Some ''control'')"
  by (cases "current_node v") (auto simp: leave_branch_def update_conv')

text \<open>
  Claim C10. If a branch of a conditional is present and its visit creates no node (the
  counter is what it was when the branch was entered), the graph after the conditional
  has a control edge from the \<^verbatim>\<open>if\<close> node to itself. This holds for the true branch,
  whatever the false branch is, and for the false branch, whatever the true branch is.
\<close>

theorem C10_silent_branch_gives_self_loop:
  "(node_id (outer (visit t (enter_branch (node_name (node_id (outer v)))
        (snd (add_node (''If '' @ get_text cond @ ''?'') ''if'' v))))) = Suc (node_id (outer v)) \<longrightarrow>
    map_of (edges (pdg (outer (visit (If cond (Some t) iffalse) v))))
      (node_name (node_id (outer v)), node_name (node_id (outer v))) = Some (Some ''control'')) \<and>
   (node_id (outer (visit f (enter_branch (node_name (node_id (outer v)))
        (visit (If cond iftrue None) v)))) = node_id (outer (visit (If cond iftrue None) v)) \<longrightarrow>
    map_of (edges (pdg (outer (visit (If cond iftrue (Some f)) v))))
      (node_name (node_id (outer v)), node_name (node_id (outer v))) = Some (Some ''control''))"
proof (intro conjI impI)
  define c where "c = node_name (node_id (outer v))"
  define v0 where "v0 = snd (add_node (''If '' @ get_text cond @ ''?'') ''if'' v)"
  assume silent: "node_id (outer (visit t (enter_branch (node_name (node_id (outer v)))
        (snd (add_node (''If '' @ get_text cond @ ''?'') ''if'' v))))) = Suc (node_id (outer v))"
  then have "node_id (outer (visit t (enter_branch c v0))) = node_id (outer (enter_branch c v0))"
    by (simp add: c_def v0_def)
  with visit_silent_all(1) [of t "enter_branch c v0"]
  have same: "visit t (enter_branch c v0) = enter_branch c v0" by simp
  define v1 where "v1 = leave_branch c (Some c) (visit t (enter_branch c v0))"
  have loop1: "map_of (edges (pdg (outer v1))) (c, c) = Some (Some ''control'')"
    unfolding v1_def same by (rule self_loop_after_leave) simp_all
  have cnt1: "node_id (outer v1) = Suc (node_id (outer v))"
    unfolding v1_def same by (simp add: v0_def)
  have cur1: "current_node v1 = Some c" by (simp add: v1_def)
  have res: "visit (If cond (Some t) iffalse) v =
      (case iffalse of None \<Rightarrow> v1
       | Some f \<Rightarrow> leave_branch c (Some c) (visit f (enter_branch c v1)))"
    by (subst visit_If_unfold, cases iffalse)
       (simp_all add: v1_def c_def v0_def Let_def del: visit.simps)
  show "map_of (edges (pdg (outer (visit (If cond (Some t) iffalse) v))))
      (node_name (node_id (outer v)), node_name (node_id (outer v))) = Some (Some ''control'')"
  proof (cases iffalse)
    case None
    with res loop1 show ?thesis by (simp add: c_def)
  next
    case (Some f)
    have "map_of (edges (pdg (outer (visit f (enter_branch c v1))))) (c, c) =
          map_of (edges (pdg (outer (enter_branch c v1)))) (c, c)"
      unfolding c_def by (rule old_edge_kept) (simp_all add: cnt1)
    with loop1 have kept:
      "map_of (edges (pdg (outer (visit f (enter_branch c v1))))) (c, c) = Some (Some ''control'')"
      by simp
    from visit_cursor_all(1) [of "enter_branch c v1" f]
    have "current_node (visit f (enter_branch c v1)) \<noteq> None" by simp
    with kept have "map_of (edges (pdg (outer (leave_branch c (Some c)
        (visit f (enter_branch c v1)))))) (c, c) = Some (Some ''control'')"
      by (intro self_loop_after_leave) simp_all
    with res Some show ?thesis by (simp add: c_def)
  qed
next
  define c where "c = node_name (node_id (outer v))"
  define v1 where "v1 = visit (If cond iftrue None) v"
  assume "node_id (outer (visit f (enter_branch (node_name (node_id (outer v)))
        (visit (If cond iftrue None) v)))) = node_id (outer (visit (If cond iftrue None) v))"
  then have "node_id (outer (visit f (enter_branch c v1))) = node_id (outer (enter_branch c v1))"
    by (simp add: c_def v1_def del: visit.simps)
  with visit_silent_all(1) [of f "enter_branch c v1"]
  have same: "visit f (enter_branch c v1) = enter_branch c v1" by simp
  have res: "visit (If cond iftrue (Some f)) v =
      leave_branch c (current_node v1) (visit f (enter_branch c v1))"
    unfolding v1_def c_def
    by (simp only: visit_If_unfold Let_def option.case)
  have "map_of (edges (pdg (outer (leave_branch c (current_node v1) (enter_branch c v1))))) (c, c) =
        Some (Some ''control'')"
    by (rule self_loop_after_leave) simp_all
  with res same show "map_of (edges (pdg (outer (visit (If cond iftrue (Some f)) v))))
      (node_name (node_id (outer v)), node_name (node_id (outer v))) = Some (Some ''control'')"
    by (simp add: c_def del: visit.simps)
qed

text \<open>The branch \<^verbatim>\<open>;\<close> of \<^verbatim>\<open>if (c) ;\<close> is such a branch, in either position.\<close>

theorem C10_silent_branch_witness:
  "node_id (outer (visit (Other []) (enter_branch (node_name (node_id (outer (new_Visitor new_PDGGenerator))))
        (snd (add_node (''If '' @ get_text (ID ''c'') @ ''?'') ''if'' (new_Visitor new_PDGGenerator)))))) =
     Suc (node_id (outer (new_Visitor new_PDGGenerator))) \<and>
   node_id (outer (visit (Other []) (enter_branch (node_name (node_id (outer (new_Visitor new_PDGGenerator))))
        (visit (If (ID ''c'') None None) (new_Visitor new_PDGGenerator))))) =
     node_id (outer (visit (If (ID ''c'') None None) (new_Visitor new_PDGGenerator))) \<and>
   map_of (edges (pdg (outer (visit (If (ID ''c'') (Some (Other [])) None) (new_Visitor new_PDGGenerator)))))
      (''n0'', ''n0'') = Some (Some ''control'') \<and>
   map_of (edges (pdg (outer (visit (If (ID ''c'') None (Some (Other []))) (new_Visitor new_PDGGenerator)))))
      (''n0'', ''n0'') = Some (Some ''control'')"
proof -
  have p1: "node_id (outer (visit (Other []) (enter_branch (node_name (node_id (outer (new_Visitor new_PDGGenerator))))
        (snd (add_node (''If '' @ get_text (ID ''c'') @ ''?'') ''if'' (new_Visitor new_PDGGenerator)))))) =
     Suc (node_id (outer (new_Visitor new_PDGGenerator)))"
    by code_simp
  have p2: "node_id (outer (visit (Other []) (enter_branch (node_name (node_id (outer (new_Visitor new_PDGGenerator))))
        (visit (If (ID ''c'') None None) (new_Visitor new_PDGGenerator))))) =
     node_id (outer (visit (If (ID ''c'') None None) (new_Visitor new_PDGGenerator)))"
    by code_simp
  have n0: "node_name (node_id (outer (new_Visitor new_PDGGenerator))) = ''n0''"
    by code_simp
  note th = C10_silent_branch_gives_self_loop
    [of "Other []" "new_Visitor new_PDGGenerator" "ID ''c''" None "Other []" None]
  from th p1 have c1: "map_of (edges (pdg (outer (visit (If (ID ''c'') (Some (Other [])) None)
      (new_Visitor new_PDGGenerator)))))
      (node_name (node_id (outer (new_Visitor new_PDGGenerator))),
       node_name (node_id (outer (new_Visitor new_PDGGenerator)))) = Some (Some ''control'')"
    by blast
  from th p2 have c2: "map_of (edges (pdg (outer (visit (If (ID ''c'') None (Some (Other [])))
      (new_Visitor new_PDGGenerator)))))
      (node_name (node_id (outer (new_Visitor new_PDGGenerator))),
       node_name (node_id (outer (new_Visitor new_PDGGenerator)))) = Some (Some ''control'')"
    by blast
  from p1 p2 c1 [unfolded n0] c2 [unfolded n0] show ?thesis by blast
qed

section \<open>Python floats: rounding\<close>

lemma bitlen_bounds:
  "0 < p \<Longrightarrow> 1 \<le> bitlen p \<and> 2 ^ nat (bitlen p - 1) \<le> p \<and> p < 2 ^ nat (bitlen p)"
proof (induction p rule: bitlen.induct)
  case (1 p)
  show ?case
  proof (cases "p div 2 = 0")
    case True
    with 1(2) have p: "p = 1" by presburger
    have "bitlen 1 = 1" by (simp add: bitlen.simps [of 1] bitlen.simps [of 0])
    with p show ?thesis by simp
  next
    case False
    with 1(2) have pos: "0 < p div 2" by presburger
    from 1(1) [OF _ pos] 1(2)
    have ih: "1 \<le> bitlen (p div 2)" "2 ^ nat (bitlen (p div 2) - 1) \<le> p div 2"
      "p div 2 < 2 ^ nat (bitlen (p div 2))" by simp_all
    have b: "bitlen p = 1 + bitlen (p div 2)" using 1(2) by (simp add: bitlen.simps [of p])
    from ih(1) have n: "nat (bitlen (p div 2)) = Suc (nat (bitlen (p div 2) - 1))" by simp
    have "(2::int) ^ nat (bitlen (p div 2)) = 2 * 2 ^ nat (bitlen (p div 2) - 1)"
      by (subst n) simp
    also have "\<dots> \<le> 2 * (p div 2)" using ih(2) by simp
    also have "\<dots> \<le> p" by presburger
    finally have lo: "2 ^ nat (bitlen (p div 2)) \<le> p" .
    from ih(3) have "p div 2 + 1 \<le> 2 ^ nat (bitlen (p div 2))" by simp
    then have "2 * (p div 2) + 2 \<le> 2 * 2 ^ nat (bitlen (p div 2))" by simp
    moreover have "p < 2 * (p div 2) + 2" by presburger
    ultimately have hi: "p < 2 * 2 ^ nat (bitlen (p div 2))" by simp
    have n2: "nat (1 + bitlen (p div 2)) = Suc (nat (bitlen (p div 2)))" using ih(1) by simp
    from ih(1) lo hi show ?thesis unfolding b n2 by simp
  qed
qed

lemma bitlen_rat:
  assumes "0 < p"
  shows "2 powi (bitlen p - 1) \<le> (of_int p :: rat)" and "(of_int p :: rat) < 2 powi (bitlen p)"
proof -
  from bitlen_bounds [OF assms]
  have b: "1 \<le> bitlen p" "2 ^ nat (bitlen p - 1) \<le> p" "p < 2 ^ nat (bitlen p)" by simp_all
  have "(2::rat) powi (bitlen p - 1) = 2 ^ nat (bitlen p - 1)"
    using b(1) by (simp add: power_int_def)
  also have "\<dots> = of_int (2 ^ nat (bitlen p - 1))" by simp
  also have "\<dots> \<le> of_int p" using b(2) by (simp only: of_int_le_iff)
  finally show "2 powi (bitlen p - 1) \<le> (of_int p :: rat)" .
  have "(of_int p :: rat) < of_int (2 ^ nat (bitlen p))" using b(3) by (simp only: of_int_less_iff)
  also have "\<dots> = 2 ^ nat (bitlen p)" by simp
  also have "\<dots> = 2 powi (bitlen p)" using b(1) by (simp add: power_int_def)
  finally show "(of_int p :: rat) < 2 powi (bitlen p)" .
qed

lemma floor_log2_spec:
  assumes x: "0 < x"
  shows "2 powi (floor_log2 x) \<le> x" and "x < 2 powi (floor_log2 x + 1)"
proof -
  obtain p q where pq: "quotient_of x = (p, q)" by (cases "quotient_of x")
  from quotient_of_denom_pos [OF pq] have q: "0 < q" .
  from quotient_of_div [OF pq] have xe: "x = of_int p / of_int q" .
  from x q xe have p: "0 < p" by (simp add: zero_less_divide_iff)
  define k where "k = bitlen p - bitlen q"
  have fl: "floor_log2 x = (if 2 powi k \<le> x then k else k - 1)"
    by (simp add: floor_log2_def pq k_def Let_def)
  have qr: "(0::rat) < of_int q" using q by simp
  have up: "x < 2 powi (k + 1)"
  proof -
    have "x * of_int q = of_int p" using qr xe by simp
    also have "\<dots> < 2 powi (bitlen p)" by (rule bitlen_rat(2) [OF p])
    also have "\<dots> = 2 powi (k + 1) * 2 powi (bitlen q - 1)"
      by (simp add: k_def power_int_add [symmetric])
    also have "\<dots> \<le> 2 powi (k + 1) * of_int q"
      by (rule mult_left_mono [OF bitlen_rat(1) [OF q]]) simp
    finally show ?thesis using qr by simp
  qed
  have lo: "2 powi (k - 1) < x"
  proof -
    have "(2::rat) powi (k - 1) * of_int q < 2 powi (k - 1) * 2 powi (bitlen q)"
      by (rule mult_strict_left_mono [OF bitlen_rat(2) [OF q]]) simp
    also have "\<dots> = 2 powi (bitlen p - 1)"
      by (simp add: k_def power_int_add [symmetric])
    also have "\<dots> \<le> of_int p" by (rule bitlen_rat(1) [OF p])
    also have "\<dots> = x * of_int q" using qr xe by simp
    finally show ?thesis using qr by simp
  qed
  show "2 powi (floor_log2 x) \<le> x" using lo by (simp add: fl)
  show "x < 2 powi (floor_log2 x + 1)" using up by (auto simp add: fl not_le)
qed

lemma powi_less_D: "(2::rat) powi a < 2 powi b \<Longrightarrow> a < b"
proof (rule ccontr)
  assume lt: "(2::rat) powi a < 2 powi b" and "\<not> a < b"
  then have "b \<le> a" by simp
  then have "(2::rat) powi b \<le> 2 powi a" by (intro power_int_increasing) simp_all
  with lt show False by simp
qed

lemma floor_log2_unique:
  assumes "2 powi L \<le> x" and "x < 2 powi (L + 1)"
  shows "floor_log2 x = L"
proof -
  have "(0::rat) < 2 powi L" by simp
  from less_le_trans [OF this assms(1)] have x: "0 < x" .
  note s = floor_log2_spec [OF x]
  have "\<not> floor_log2 x + 1 \<le> L"
  proof
    assume "floor_log2 x + 1 \<le> L"
    then have "(2::rat) powi (floor_log2 x + 1) \<le> 2 powi L" by (intro power_int_increasing) simp_all
    with s(2) assms(1) show False by simp
  qed
  moreover have "\<not> L + 1 \<le> floor_log2 x"
  proof
    assume "L + 1 \<le> floor_log2 x"
    then have "(2::rat) powi (L + 1) \<le> 2 powi (floor_log2 x)" by (intro power_int_increasing) simp_all
    with s(1) assms(2) show False by simp
  qed
  ultimately show ?thesis by simp
qed

lemma floor_log2_mono:
  assumes "0 < x" and "x \<le> y"
  shows "floor_log2 x \<le> floor_log2 y"
proof (rule ccontr)
  assume "\<not> floor_log2 x \<le> floor_log2 y"
  then have "floor_log2 y + 1 \<le> floor_log2 x" by simp
  then have "(2::rat) powi (floor_log2 y + 1) \<le> 2 powi (floor_log2 x)"
    by (intro power_int_increasing) simp_all
  moreover from assms have y: "0 < y" by simp
  ultimately show False
    using floor_log2_spec(1) [OF assms(1)] floor_log2_spec(2) [OF y] assms(2) by simp
qed

lemma round_half_even_cases:
  obtains f where "of_int f \<le> r" "r < of_int f + 1" "f = \<lfloor>r\<rfloor>"
    "round_half_even r =
       (if r - of_int f < 1 / 2 then f else if 1 / 2 < r - of_int f then f + 1
        else if even f then f else f + 1)"
proof -
  have "of_int \<lfloor>r\<rfloor> \<le> r" "r < of_int \<lfloor>r\<rfloor> + 1" by linarith+
  then show ?thesis using that [of "\<lfloor>r\<rfloor>"] by (simp add: round_half_even_def Let_def)
qed

lemma round_half_even_bounds:
  "of_int (round_half_even r) \<le> r + 1 / 2" "r - 1 / 2 \<le> of_int (round_half_even r)"
proof -
  obtain f where f: "of_int f \<le> r" "r < of_int f + 1"
    and e: "round_half_even r =
       (if r - of_int f < 1 / 2 then f else if 1 / 2 < r - of_int f then f + 1
        else if even f then f else f + 1)" by (rule round_half_even_cases)
  show "of_int (round_half_even r) \<le> r + 1 / 2" unfolding e using f by auto
  show "r - 1 / 2 \<le> of_int (round_half_even r)" unfolding e using f by auto
qed

lemma round_half_even_of_int [simp]: "round_half_even (of_int k) = k"
  by (simp add: round_half_even_def)

lemma round_half_even_range: "\<lfloor>r\<rfloor> \<le> round_half_even r" "round_half_even r \<le> \<lfloor>r\<rfloor> + 1"
  by (simp_all add: round_half_even_def Let_def)

lemma round_half_even_mono:
  assumes "r \<le> s"
  shows "round_half_even r \<le> round_half_even s"
proof (cases "\<lfloor>r\<rfloor> = \<lfloor>s\<rfloor>")
  case True
  with assms have "r - of_int \<lfloor>r\<rfloor> \<le> s - of_int \<lfloor>s\<rfloor>" by simp
  with True show ?thesis by (auto simp: round_half_even_def Let_def)
next
  case False
  from assms have "\<lfloor>r\<rfloor> \<le> \<lfloor>s\<rfloor>" by (rule floor_mono)
  with False have "\<lfloor>r\<rfloor> + 1 \<le> \<lfloor>s\<rfloor>" by simp
  with round_half_even_range(2) [of r] round_half_even_range(1) [of s] show ?thesis by simp
qed

lemma round_half_even_unique:
  assumes "\<bar>r - of_int m\<bar> < 1 / 2 \<or> (\<bar>r - of_int m\<bar> = 1 / 2 \<and> even m)"
  shows "round_half_even r = m"
proof -
  obtain f where f: "of_int f \<le> r" "r < of_int f + 1"
    and e: "round_half_even r =
       (if r - of_int f < 1 / 2 then f else if 1 / 2 < r - of_int f then f + 1
        else if even f then f else f + 1)" by (rule round_half_even_cases)
  from assms have "\<bar>r - of_int m\<bar> \<le> 1 / 2" by linarith
  then have "r - 1 / 2 \<le> of_int m" "of_int m \<le> r + 1 / 2" by linarith+
  with f have "of_int f - 1 < (of_int m :: rat)" "(of_int m :: rat) < of_int f + 2" by simp_all
  then have "of_int (f - 1) < (of_int m :: rat)" "(of_int m :: rat) < of_int (f + 2)" by simp_all
  then have "f - 1 < m" "m < f + 2" by (simp_all only: of_int_less_iff)
  then consider "m = f" | "m = f + 1" by linarith
  then show ?thesis
  proof cases
    case 1
    with assms f show ?thesis unfolding e by (auto simp: abs_if split: if_splits)
  next
    case 2
    with assms f show ?thesis unfolding e by (auto simp: abs_if split: if_splits)
  qed
qed

lemma round_half_even_nonneg: "0 \<le> r \<Longrightarrow> 0 \<le> round_half_even r"
proof -
  assume "0 \<le> r"
  then have "0 \<le> \<lfloor>r\<rfloor>" by simp
  from order_trans [OF this round_half_even_range(1)] show ?thesis .
qed

lemma fl_0 [simp]: "fl 0 = 0"
  by (simp add: fl_def)

lemma fl_pos:
  "0 < x \<Longrightarrow> fl x = of_int (round_half_even (x / 2 powi ulp_exponent x)) * 2 powi ulp_exponent x"
  by (simp add: fl_def Let_def)

lemma ulp_exponent_pos:
  "0 < x \<Longrightarrow> ulp_exponent x = max (floor_log2 x - 52) (- 1074)"
  by (simp add: ulp_exponent_def)

lemma powi_53: "(2::rat) powi (L + 1) = 2 powi (L - 52) * 2 ^ 53"
proof -
  have "(2::rat) powi ((L - 52) + 53) = 2 powi (L - 52) * 2 powi 53" by (rule power_int_add) simp
  then show ?thesis by (simp add: add.commute)
qed

lemma powi_52: "(2::rat) powi L = 2 powi (L - 52) * 2 ^ 52"
proof -
  have "(2::rat) powi ((L - 52) + 52) = 2 powi (L - 52) * 2 powi 52" by (rule power_int_add) simp
  then show ?thesis by simp
qed

lemma scaled_upper:
  assumes x: "0 < x"
  shows "x / 2 powi ulp_exponent x < 2 ^ 53"
proof -
  have "x < 2 powi (floor_log2 x + 1)" by (rule floor_log2_spec(2) [OF x])
  also have "\<dots> = 2 powi (floor_log2 x - 52) * 2 ^ 53" by (rule powi_53)
  also have "\<dots> \<le> 2 powi ulp_exponent x * 2 ^ 53"
    by (rule mult_right_mono [OF power_int_increasing]) (simp_all add: ulp_exponent_pos [OF x])
  finally show ?thesis by (simp add: pos_divide_less_eq mult.commute)
qed

lemma scaled_lower:
  assumes x: "0 < x" and n: "- 1074 \<le> floor_log2 x - 52"
  shows "2 ^ 52 \<le> x / 2 powi ulp_exponent x"
proof -
  from n have e: "ulp_exponent x = floor_log2 x - 52" by (simp add: ulp_exponent_pos [OF x])
  have "2 powi (floor_log2 x - 52) * 2 ^ 52 = (2::rat) powi (floor_log2 x)" by (rule powi_52 [symmetric])
  also have "\<dots> \<le> x" by (rule floor_log2_spec(1) [OF x])
  finally show ?thesis by (simp add: e pos_le_divide_eq mult.commute)
qed

lemma fl_nonneg: "0 \<le> x \<Longrightarrow> 0 \<le> fl x"
proof (cases "x = 0")
  case False
  assume "0 \<le> x"
  with False have x: "0 < x" by simp
  have "0 \<le> x / 2 powi ulp_exponent x" using x by simp
  then have "0 \<le> round_half_even (x / 2 powi ulp_exponent x)" by (rule round_half_even_nonneg)
  then show ?thesis by (simp add: fl_pos [OF x])
qed simp

lemma mantissa_upper:
  assumes x: "0 < x"
  shows "round_half_even (x / 2 powi ulp_exponent x) \<le> 2 ^ 53"
proof -
  have "x / 2 powi ulp_exponent x \<le> of_int (2 ^ 53)" using scaled_upper [OF x] by simp
  from round_half_even_mono [OF this] show ?thesis by (simp only: round_half_even_of_int)
qed

lemma mantissa_lower:
  assumes x: "0 < x" and n: "- 1074 \<le> floor_log2 x - 52"
  shows "2 ^ 52 \<le> round_half_even (x / 2 powi ulp_exponent x)"
proof -
  have "of_int (2 ^ 52) \<le> x / 2 powi ulp_exponent x" using scaled_lower [OF x n] by simp
  from round_half_even_mono [OF this] show ?thesis by (simp only: round_half_even_of_int)
qed

lemma fl_exact:
  assumes M: "0 \<le> M" "M \<le> 2 ^ 53" and E: "- 1074 \<le> E"
  shows "fl (of_int M * 2 powi E) = of_int M * 2 powi E"
proof (cases "M = 0")
  case True
  then show ?thesis by simp
next
  case False
  with M have Mpos: "0 < M" by simp
  define x :: rat where "x = of_int M * 2 powi E"
  have x: "0 < x" using Mpos by (simp add: x_def)
  define e where "e = ulp_exponent x"
  have "\<exists>K. x / 2 powi e = of_int K"
  proof (cases "M = 2 ^ 53")
    case True
    have "x = 2 powi 53 * 2 powi E" by (simp add: x_def True)
    also have "\<dots> = 2 powi (53 + E)" by (rule power_int_add [symmetric]) simp
    finally have xe: "x = 2 powi (E + 53)" by (simp add: add.commute)
    have "floor_log2 x = E + 53"
    proof (rule floor_log2_unique)
      show "2 powi (E + 53) \<le> x" by (simp add: xe)
      show "x < 2 powi (E + 53 + 1)" unfolding xe by (rule power_int_strict_increasing) simp_all
    qed
    with E have e: "e = E + 1" by (simp add: e_def ulp_exponent_pos [OF x])
    have "x / 2 powi e = 2 powi (E + 53 - (E + 1))" unfolding xe e
      by (rule power_int_diff [symmetric]) simp
    also have "\<dots> = of_int (2 ^ 52)" by simp
    finally show ?thesis by blast
  next
    case False
    with M have "M < 2 ^ 53" by simp
    then have "(of_int M :: rat) < of_int (2 ^ 53)" by (simp only: of_int_less_iff)
    then have "(of_int M :: rat) < 2 powi 53" by simp
    then have "x < 2 powi 53 * 2 powi E" by (simp add: x_def)
    also have "\<dots> = 2 powi (53 + E)" by (rule power_int_add [symmetric]) simp
    finally have "x < 2 powi (53 + E)" .
    with floor_log2_spec(1) [OF x] have "(2::rat) powi (floor_log2 x) < 2 powi (53 + E)" by simp
    then have "floor_log2 x < 53 + E" by (rule powi_less_D)
    with E have le: "e \<le> E" by (simp add: e_def ulp_exponent_pos [OF x])
    have "x / 2 powi e = of_int M * (2 powi E / 2 powi e)" by (simp add: x_def)
    also have "2 powi E / 2 powi e = (2::rat) powi (E - e)" by (rule power_int_diff [symmetric]) simp
    also have "\<dots> = 2 ^ nat (E - e)" using le by (simp add: power_int_def)
    also have "of_int M * 2 ^ nat (E - e) = (of_int (M * 2 ^ nat (E - e)) :: rat)" by simp
    finally show ?thesis by blast
  qed
  then obtain K where K: "x / 2 powi e = of_int K" ..
  then have xK: "x = of_int K * 2 powi e" by (simp add: field_simps)
  have "fl x = of_int (round_half_even (x / 2 powi e)) * 2 powi e"
    unfolding e_def by (rule fl_pos [OF x])
  also have "\<dots> = x" unfolding K round_half_even_of_int by (simp only: xK [symmetric])
  finally show ?thesis by (simp only: x_def)
qed

lemma fl_1 [simp]: "fl 1 = 1"
  using fl_exact [of 1 0] by simp

lemma fl_of_nat: "k \<le> 2 ^ 53 \<Longrightarrow> fl (of_nat k) = of_nat k"
proof -
  assume "k \<le> 2 ^ 53"
  then have "int k \<le> 2 ^ 53" by (metis of_nat_le_iff of_nat_numeral of_nat_power)
  with fl_exact [of "int k" 0] show ?thesis by simp
qed

lemma ulp_exponent_lower: "- 1074 \<le> ulp_exponent x"
  by (simp add: ulp_exponent_def)

lemma fl_idem: "0 \<le> x \<Longrightarrow> fl (fl x) = fl x"
proof (cases "x = 0")
  case False
  assume "0 \<le> x"
  with False have x: "0 < x" by simp
  have "0 \<le> x / 2 powi ulp_exponent x" using x by simp
  then have "0 \<le> round_half_even (x / 2 powi ulp_exponent x)" by (rule round_half_even_nonneg)
  from fl_exact [OF this mantissa_upper [OF x] ulp_exponent_lower]
  show ?thesis by (simp only: fl_pos [OF x])
qed simp

lemma fl_mono:
  assumes "0 \<le> x" and "x \<le> y"
  shows "fl x \<le> fl y"
proof (cases "x = 0")
  case True
  with assms show ?thesis by (simp add: fl_nonneg)
next
  case False
  with assms have x: "0 < x" and y: "0 < y" by simp_all
  from floor_log2_mono [OF x assms(2)] have le: "ulp_exponent x \<le> ulp_exponent y"
    by (simp add: ulp_exponent_pos [OF x] ulp_exponent_pos [OF y])
  show ?thesis
  proof (cases "ulp_exponent x = ulp_exponent y")
    case True
    have "x / 2 powi ulp_exponent y \<le> y / 2 powi ulp_exponent y"
      using assms(2) by (simp add: divide_right_mono)
    from round_half_even_mono [OF this]
    have "(of_int (round_half_even (x / 2 powi ulp_exponent y)) :: rat)
            \<le> of_int (round_half_even (y / 2 powi ulp_exponent y))" by (simp only: of_int_le_iff)
    then show ?thesis by (simp add: fl_pos [OF x] fl_pos [OF y] True)
  next
    case False
    with le have lt: "ulp_exponent x + 1 \<le> ulp_exponent y" by simp
    with ulp_exponent_lower [of x] have n: "- 1074 \<le> floor_log2 y - 52"
      by (simp add: ulp_exponent_pos [OF y])
    have "fl x \<le> of_int (2 ^ 53) * 2 powi ulp_exponent x"
      unfolding fl_pos [OF x]
      by (rule mult_right_mono) (simp_all only: of_int_le_iff mantissa_upper [OF x] zero_le_power_int zero_le_numeral)
    also have "\<dots> = 2 powi (ulp_exponent x + 1) * 2 ^ 52"
      by (simp add: power_int_add)
    also have "\<dots> \<le> 2 powi ulp_exponent y * 2 ^ 52"
      by (rule mult_right_mono [OF power_int_increasing [OF lt]]) simp_all
    also have "\<dots> = of_int (2 ^ 52) * 2 powi ulp_exponent y" by simp
    also have "\<dots> \<le> fl y"
      unfolding fl_pos [OF y]
      by (rule mult_right_mono) (simp_all only: of_int_le_iff mantissa_lower [OF y n] zero_le_power_int zero_le_numeral)
    finally show ?thesis .
  qed
qed

lemma fl_le_1: "0 \<le> x \<Longrightarrow> x \<le> 1 \<Longrightarrow> fl x \<le> 1"
  using fl_mono [of x 1] by simp

lemma fl_underflow:
  assumes "0 \<le> x" and "x < 1 / 2 ^ 1075"
  shows "fl x = 0"
proof (cases "x = 0")
  case False
  with assms have x: "0 < x" by simp
  have "(2::rat) powi (floor_log2 x) \<le> x" by (rule floor_log2_spec(1) [OF x])
  also have "x < 2 powi (- 1075)" using assms(2) by (simp add: power_int_minus_divide)
  finally have "floor_log2 x < - 1075" by (rule powi_less_D)
  then have e: "ulp_exponent x = - 1074" by (simp add: ulp_exponent_pos [OF x])
  have "x / 2 powi (- 1074) < 1 / 2"
  proof -
    have "x / 2 powi (- 1074) = x * 2 ^ 1074" by (simp add: power_int_minus_divide)
    also have "\<dots> < 1 / 2 ^ 1075 * 2 ^ 1074" using assms(2) by (rule mult_strict_right_mono) simp
    also have "\<dots> = 1 / 2" by simp
    finally show ?thesis .
  qed
  moreover have "0 \<le> x / 2 powi (- 1074)" using x by simp
  ultimately have "round_half_even (x / 2 powi (- 1074)) = 0"
    by (intro round_half_even_unique) simp
  then show ?thesis by (simp add: fl_pos [OF x] e)
qed simp

lemma fl_error:
  assumes "0 \<le> x"
  shows "\<bar>fl x - x\<bar> \<le> x / 2 ^ 53 + 1 / 2 ^ 1075"
proof (cases "x = 0")
  case False
  with assms have x: "0 < x" by simp
  define e where "e = ulp_exponent x"
  define m where "m = round_half_even (x / 2 powi e)"
  have f: "fl x = of_int m * 2 powi e" unfolding m_def e_def by (rule fl_pos [OF x])
  have p: "(0::rat) < 2 powi e" by simp
  from round_half_even_bounds [of "x / 2 powi e"]
  have "\<bar>of_int m - x / 2 powi e\<bar> \<le> 1 / 2" unfolding m_def by linarith
  then have "\<bar>of_int m - x / 2 powi e\<bar> * 2 powi e \<le> 1 / 2 * 2 powi e"
    by (rule mult_right_mono) simp
  moreover have "\<bar>of_int m - x / 2 powi e\<bar> * 2 powi e = \<bar>fl x - x\<bar>"
  proof -
    have "\<bar>of_int m - x / 2 powi e\<bar> * 2 powi e = \<bar>(of_int m - x / 2 powi e) * 2 powi e\<bar>"
      by (simp add: abs_mult)
    also have "(of_int m - x / 2 powi e) * 2 powi e = fl x - x" by (simp add: f field_simps)
    finally show ?thesis .
  qed
  ultimately have b: "\<bar>fl x - x\<bar> \<le> 2 powi e / 2" by simp
  show ?thesis
  proof (cases "- 1074 \<le> floor_log2 x - 52")
    case True
    then have "e = floor_log2 x - 52" by (simp add: e_def ulp_exponent_pos [OF x])
    then have "2 powi e * 2 ^ 52 = (2::rat) powi (floor_log2 x)" by (simp only: powi_52 [symmetric])
    also have "\<dots> \<le> x" by (rule floor_log2_spec(1) [OF x])
    finally have "2 powi e / 2 \<le> x / 2 ^ 53" by simp
    with b show ?thesis by simp
  next
    case False
    then have "e = - 1074" by (simp add: e_def ulp_exponent_pos [OF x])
    then have "(2::rat) powi e / 2 = 1 / 2 ^ 1075" by (simp add: power_int_minus_divide)
    with b x show ?thesis by simp
  qed
qed simp

lemma fl_cert:
  assumes x: "0 < x"
    and lo: "2 ^ 52 \<le> x * 2 ^ n" and hi: "x * 2 ^ n < 2 ^ 53" and n: "n \<le> 1074"
    and r: "\<bar>x * 2 ^ n - of_int m\<bar> < 1 / 2 \<or> (\<bar>x * 2 ^ n - of_int m\<bar> = 1 / 2 \<and> even m)"
    and y: "y = of_int m / 2 ^ n"
  shows "fl x = y"
proof -
  have pn: "(2::rat) powi (- int n) = 1 / 2 ^ n" by (simp add: power_int_minus_divide)
  have "floor_log2 x = 52 - int n"
  proof (rule floor_log2_unique)
    have "(2::rat) powi (52 - int n) = 2 powi 52 * 2 powi (- int n)"
      using power_int_add [of "2::rat" 52 "- int n"] by simp
    also have "\<dots> = 2 ^ 52 / 2 ^ n" by (simp add: pn)
    also have "\<dots> \<le> x" using lo by (simp add: pos_divide_le_eq)
    finally show "2 powi (52 - int n) \<le> x" .
    have "x < 2 ^ 53 / 2 ^ n" using hi by (simp add: pos_less_divide_eq)
    also have "\<dots> = 2 powi 53 * 2 powi (- int n)" by (simp add: pn)
    also have "\<dots> = 2 powi (53 + - int n)" by (rule power_int_add [symmetric]) simp
    finally show "x < 2 powi (52 - int n + 1)" by (simp add: algebra_simps)
  qed
  with n have e: "ulp_exponent x = - int n" by (simp add: ulp_exponent_pos [OF x])
  have s: "x / 2 powi (- int n) = x * 2 ^ n" by (simp add: pn)
  from round_half_even_unique [OF r] have "round_half_even (x * 2 ^ n) = m" .
  then show ?thesis by (simp add: fl_pos [OF x] e s pn y)
qed

section \<open>The Scorer: powers, sums and weights\<close>

lemma fl_four_fifths: "fl (4 / 5) = 3602879701896397 / 4503599627370496"
  by (rule fl_cert [where n = 53 and m = 7205759403792794]) simp_all

lemma fpow_0 [simp]: "fpow 0 = 1"
  by (simp add: fpow_def)

lemma fpow_nonneg: "0 \<le> fpow i"
  by (simp add: fpow_def fl_four_fifths fl_nonneg)

lemma fpow_le_1: "fpow i \<le> 1"
proof -
  have "(3602879701896397 / 4503599627370496 :: rat) ^ i \<le> 1"
    by (rule power_le_one) simp_all
  then show ?thesis by (simp add: fpow_def fl_four_fifths fl_le_1)
qed

lemma fpow_antitone: "fpow (Suc i) \<le> fpow i"
proof -
  have "(3602879701896397 / 4503599627370496 :: rat) ^ Suc i
        \<le> (3602879701896397 / 4503599627370496) ^ i"
    by (rule power_decreasing) simp_all
  then show ?thesis unfolding fpow_def fl_four_fifths by (intro fl_mono) simp_all
qed

lemma fpow_underflow:
  assumes "4304 \<le> i"
  shows "fpow i = 0"
proof -
  define d :: rat where "d = 3602879701896397 / 4503599627370496"
  have d: "0 \<le> d" "d \<le> 1" by (simp_all add: d_def)
  have "d ^ 4 \<le> 1 / 2" by (simp add: d_def power_divide)
  then have "(d ^ 4) ^ 1076 \<le> (1 / 2) ^ 1076" using d(1) by (intro power_mono) simp_all
  then have "d ^ 4304 \<le> (1 / 2) ^ 1076" by (simp add: power_mult [symmetric])
  moreover have "d ^ i \<le> d ^ 4304" using assms d by (intro power_decreasing) simp_all
  moreover have "((1 / 2) ^ 1076 :: rat) < 1 / 2 ^ 1075" by (simp add: power_divide)
  ultimately have "d ^ i < 1 / 2 ^ 1075" by linarith
  moreover have "0 \<le> d ^ i" using d(1) by simp
  ultimately have "fl (d ^ i) = 0" by (intro fl_underflow)
  then show ?thesis by (simp add: fpow_def fl_four_fifths d_def)
qed

lemma fsum_Nil [simp]: "fsum [] = 0"
  by (simp add: fsum_def)

lemma fsum_snoc: "fsum (xs @ [x]) = fadd (fsum xs) x"
  by (simp add: fsum_def)

lemma foldl_fadd_mono:
  "list_all2 (\<lambda>x y. 0 \<le> x \<and> x \<le> y) xs ys \<Longrightarrow> 0 \<le> a \<Longrightarrow> a \<le> b \<Longrightarrow>
   0 \<le> foldl fadd a xs \<and> foldl fadd a xs \<le> foldl fadd b ys"
proof (induction xs ys arbitrary: a b rule: list_all2_induct)
  case Nil
  then show ?case by simp
next
  case (Cons x xs y ys)
  have "0 \<le> fadd a x" using Cons.prems Cons.hyps(1) by (simp add: fadd_def fl_nonneg)
  moreover have "fadd a x \<le> fadd b y"
    unfolding fadd_def using Cons.prems Cons.hyps(1) by (intro fl_mono) simp_all
  ultimately show ?case using Cons.IH [of "fadd a x" "fadd b y"] by simp
qed

lemma fsum_mono:
  "list_all2 (\<lambda>x y. 0 \<le> x \<and> x \<le> y) xs ys \<Longrightarrow> 0 \<le> fsum xs \<and> fsum xs \<le> fsum ys"
  unfolding fsum_def by (rule foldl_fadd_mono) simp_all

lemma foldl_fadd_ge_1:
  "1 \<le> a \<Longrightarrow> \<forall>x \<in> set xs. 0 \<le> x \<Longrightarrow> 1 \<le> foldl fadd a xs"
proof (induction xs arbitrary: a)
  case Nil
  then show ?case by simp
next
  case (Cons x xs)
  then have "1 \<le> a + x" by simp
  then have "fl 1 \<le> fl (a + x)" by (intro fl_mono) simp_all
  then have "1 \<le> fadd a x" by (simp add: fadd_def)
  with Cons show ?case by simp
qed

lemma total_weight_ge_1:
  assumes "0 < n"
  shows "1 \<le> fsum (map fpow [0..<n])"
proof -
  from assms have "[0..<n] = 0 # [1..<n]" by (simp add: upt_conv_Cons)
  then have "fsum (map fpow [0..<n]) = foldl fadd (fadd 0 1) (map fpow [1..<n])"
    by (simp add: fsum_def)
  also have "fadd 0 1 = 1" by (simp add: fadd_def)
  finally show ?thesis by (simp add: foldl_fadd_ge_1 fpow_nonneg)
qed

lemma length_weights [simp]: "length (weights h) = nat (h + 1)"
  by (simp add: weights_def Let_def)

lemma weights_nth:
  "i < nat (h + 1) \<Longrightarrow> weights h ! i = fdiv (fpow i) (fsum (map fpow [0..<nat (h + 1)]))"
  by (simp add: weights_def Let_def)

lemma weights_range:
  assumes "i < nat (h + 1)"
  shows "0 \<le> weights h ! i" and "weights h ! i \<le> 1"
proof -
  from assms have "0 < nat (h + 1)" by simp
  from total_weight_ge_1 [OF this] have T: "1 \<le> fsum (map fpow [0..<nat (h + 1)])" .
  have q: "0 \<le> fpow i / fsum (map fpow [0..<nat (h + 1)])" using T fpow_nonneg [of i] by simp
  then show "0 \<le> weights h ! i" by (simp add: weights_nth [OF assms] fdiv_def fl_nonneg)
  have "fpow i / fsum (map fpow [0..<nat (h + 1)]) \<le> 1"
    using T fpow_le_1 [of i] by (simp add: pos_divide_le_eq)
  with q show "weights h ! i \<le> 1" by (simp add: weights_nth [OF assms] fdiv_def fl_le_1)
qed

lemma weights_antitone:
  assumes "Suc i < nat (h + 1)"
  shows "weights h ! Suc i \<le> weights h ! i"
proof -
  from assms have i: "i < nat (h + 1)" and "0 < nat (h + 1)" by simp_all
  from total_weight_ge_1 [OF this(2)] have T: "1 \<le> fsum (map fpow [0..<nat (h + 1)])" .
  have "fpow (Suc i) / fsum (map fpow [0..<nat (h + 1)]) \<le> fpow i / fsum (map fpow [0..<nat (h + 1)])"
    using T by (intro divide_right_mono fpow_antitone) simp
  moreover have "0 \<le> fpow (Suc i) / fsum (map fpow [0..<nat (h + 1)])"
    using T fpow_nonneg [of "Suc i"] by simp
  ultimately show ?thesis
    unfolding weights_nth [OF assms] weights_nth [OF i] fdiv_def by (intro fl_mono)
qed

lemma weights_fl:
  assumes "i < nat (h + 1)"
  shows "fl (weights h ! i) = weights h ! i"
proof -
  from assms have "0 < nat (h + 1)" by simp
  from total_weight_ge_1 [OF this] have T: "1 \<le> fsum (map fpow [0..<nat (h + 1)])" .
  have "0 \<le> fpow i / fsum (map fpow [0..<nat (h + 1)])" using T fpow_nonneg [of i] by simp
  then show ?thesis by (simp add: weights_nth [OF assms] fdiv_def fl_idem)
qed

lemma weights_underflow: "4304 \<le> i \<Longrightarrow> i < nat (h + 1) \<Longrightarrow> weights h ! i = 0"
  by (simp add: weights_nth fpow_underflow fdiv_def)

section \<open>The Scorer: one round's similarity\<close>

lemma intersect_le_union:
  "sum_list (map (\<lambda>l. min (counter_get h1 l) (counter_get h2 l)) ls)
   \<le> sum_list (map (\<lambda>l. max (counter_get h1 l) (counter_get h2 l)) ls)"
  by (rule sum_list_mono) simp

lemma quotient_range:
  assumes "i \<le> u" and "0 < (u::nat)"
  shows "0 \<le> fdiv (of_nat i) (of_nat u)" and "fdiv (of_nat i) (of_nat u) \<le> 1"
proof -
  have q: "0 \<le> (of_nat i :: rat) / of_nat u" by simp
  then show "0 \<le> fdiv (of_nat i) (of_nat u)" by (simp add: fdiv_def fl_nonneg)
  have "(of_nat i :: rat) \<le> of_nat u" using assms(1) by simp
  then have "(of_nat i :: rat) / of_nat u \<le> 1" using assms(2) by (simp add: pos_divide_le_eq)
  with q show "fdiv (of_nat i) (of_nat u) \<le> 1" unfolding fdiv_def by (rule fl_le_1)
qed

lemma round_similarity_range: "0 \<le> round_similarity h1 h2 \<and> round_similarity h1 h2 \<le> 1"
  using intersect_le_union [of h1 h2 "remdups (map fst h1 @ map fst h2)"]
  by (simp add: round_similarity_def Let_def quotient_range)

lemma round_similarity_empty: "round_similarity [] [] = 0"
  by (simp add: round_similarity_def)

lemma round_similarity_same: "positive_hist h \<Longrightarrow> round_similarity h h = 1"
proof -
  assume "positive_hist h"
  then obtain l where l: "l \<in> set (map fst h)" "0 < counter_get h l"
    by (auto simp: positive_hist_def list_ex_iff)
  from l(1) have "counter_get h l \<in> set (map (counter_get h) (remdups (map fst h @ map fst h)))"
    by auto
  then have "counter_get h l \<le> sum_list (map (counter_get h) (remdups (map fst h @ map fst h)))"
    by (rule member_le_sum_list) simp_all
  with l(2) have "0 < sum_list (map (counter_get h) (remdups (map fst h @ map fst h)))"
    by simp
  with l show ?thesis by (auto simp: round_similarity_def Let_def fdiv_def)
qed

section \<open>The Scorer: the weighted sum\<close>

lemma weighted_sum_fsum:
  "weighted_sum h A B =
     fsum (map (\<lambda>i. fmul (weights h ! i) (round_similarity (A ! i) (B ! i))) [0..<nat (h + 1)])"
  by (simp add: weighted_sum_def Let_def fsum_def foldl_map)

lemma weighted_sum_negative: "h < 0 \<Longrightarrow> weighted_sum h A B = 0"
  by (simp add: weighted_sum_fsum)

lemma weights_by_index: "map (\<lambda>i. weights h ! i) [0..<nat (h + 1)] = weights h"
  using map_nth [of "weights h"] by simp

lemma weighted_sum_range:
  "0 \<le> weighted_sum h A B \<and> weighted_sum h A B \<le> fsum (weights h)"
proof -
  have "list_all2 (\<lambda>x y. 0 \<le> x \<and> x \<le> y)
          (map (\<lambda>i. fmul (weights h ! i) (round_similarity (A ! i) (B ! i))) [0..<nat (h + 1)])
          (map (\<lambda>i. weights h ! i) [0..<nat (h + 1)])"
  proof (simp only: list_all2_map1 list_all2_map2, rule list_all2_same [THEN iffD2], intro ballI conjI)
    fix i assume "i \<in> set [0..<nat (h + 1)]"
    then have i: "i < nat (h + 1)" by simp
    note w = weights_range [OF i] and r = round_similarity_range [of "A ! i" "B ! i"]
    from w(1) r have p: "0 \<le> weights h ! i * round_similarity (A ! i) (B ! i)" by simp
    then show "0 \<le> fmul (weights h ! i) (round_similarity (A ! i) (B ! i))"
      by (simp add: fmul_def fl_nonneg)
    from w(1) r have "weights h ! i * round_similarity (A ! i) (B ! i) \<le> weights h ! i"
      by (simp add: mult_left_le)
    from fl_mono [OF p this]
    show "fmul (weights h ! i) (round_similarity (A ! i) (B ! i)) \<le> weights h ! i"
      by (simp add: fmul_def weights_fl [OF i])
  qed
  from fsum_mono [OF this] show ?thesis by (simp only: weighted_sum_fsum weights_by_index)
qed

lemma weighted_sum_same:
  assumes len: "nat (h + 1) \<le> length A" and pos: "list_all positive_hist A"
  shows "weighted_sum h A A = fsum (weights h)"
proof -
  have "map (\<lambda>i. fmul (weights h ! i) (round_similarity (A ! i) (A ! i))) [0..<nat (h + 1)] =
        map (\<lambda>i. weights h ! i) [0..<nat (h + 1)]"
  proof (rule map_cong [OF refl])
    fix i assume "i \<in> set [0..<nat (h + 1)]"
    then have i: "i < nat (h + 1)" by simp
    with len have "i < length A" by simp
    with pos have "positive_hist (A ! i)" by (simp add: list_all_length)
    then show "fmul (weights h ! i) (round_similarity (A ! i) (A ! i)) = weights h ! i"
      by (simp add: round_similarity_same fmul_def weights_fl [OF i])
  qed
  then show ?thesis by (simp only: weighted_sum_fsum weights_by_index)
qed

section \<open>The Scorer: rounding errors\<close>

lemma fl_upper: "0 \<le> x \<Longrightarrow> fl x \<le> x + x / 2 ^ 53 + 1 / 2 ^ 1075"
  using fl_error [of x] by linarith

lemma fl_lower: "0 \<le> x \<Longrightarrow> x - x / 2 ^ 53 - 1 / 2 ^ 1075 \<le> fl x"
  using fl_error [of x] by linarith

lemma fl_le_triple:
  assumes "0 \<le> x"
  shows "fl x \<le> 3 * x"
proof (cases "x < 1 / 2 ^ 1075")
  case True
  with assms show ?thesis by (simp add: fl_underflow)
next
  case False
  have "x / 2 ^ 53 \<le> x" using assms by (simp add: field_simps)
  with False fl_upper [OF assms] show ?thesis by linarith
qed

lemma fsum_nonneg: "\<forall>x \<in> set xs. 0 \<le> x \<Longrightarrow> 0 \<le> fsum xs"
  by (induction xs rule: rev_induct) (simp_all add: fsum_snoc fadd_def fl_nonneg)

lemma fsum_fl: "\<forall>x \<in> set xs. 0 \<le> x \<Longrightarrow> fl (fsum xs) = fsum xs"
proof (cases xs rule: rev_cases)
  case Nil
  then show ?thesis by simp
next
  case (snoc ys y)
  assume "\<forall>x \<in> set xs. 0 \<le> x"
  with snoc have "0 \<le> fsum ys + y" by (simp add: fsum_nonneg)
  then show ?thesis by (simp add: snoc fsum_snoc fadd_def fl_idem)
qed

lemma nonzeros_Nil [simp]: "nonzeros [] = 0"
  by (simp add: nonzeros_def)

lemma nonzeros_snoc: "nonzeros (xs @ [x]) = (if x = 0 then nonzeros xs else Suc (nonzeros xs))"
  by (simp add: nonzeros_def)

lemma nonzeros_Cons: "nonzeros (x # xs) = (if x = 0 then nonzeros xs else Suc (nonzeros xs))"
  by (simp add: nonzeros_def)

lemma nonzeros_append: "nonzeros (xs @ ys) = nonzeros xs + nonzeros ys"
  by (simp add: nonzeros_def)

lemma nonzeros_le_length: "nonzeros xs \<le> length xs"
  by (simp add: nonzeros_def)

lemma nonzeros_zero: "\<forall>x \<in> set xs. x = 0 \<Longrightarrow> nonzeros xs = 0"
  by (induction xs) (simp_all add: nonzeros_Cons)

lemma nonzeros_map: "(\<And>x. x = 0 \<Longrightarrow> f x = 0) \<Longrightarrow> nonzeros (map f xs) \<le> nonzeros xs"
  by (induction xs) (auto simp: nonzeros_Cons)

text \<open>The floating-point sum of non-negative floats whose exact sum is at most \<open>B\<close>: every
  addition of an element that is not zero adds an error of at most
  \<open>(B + 1) / 2 ^ 53 + 1 / 2 ^ 1075\<close>.\<close>

lemma fsum_error:
  assumes "\<forall>x \<in> set xs. 0 \<le> x" and "sum_list xs \<le> B"
    and "of_nat (nonzeros xs) * ((B + 1) / 2 ^ 53 + 1 / 2 ^ 1075) \<le> 1"
  shows "\<bar>fsum xs - sum_list xs\<bar> \<le> of_nat (nonzeros xs) * ((B + 1) / 2 ^ 53 + 1 / 2 ^ 1075)"
  using assms
proof (induction xs rule: rev_induct)
  case Nil
  then show ?case by simp
next
  case (snoc x xs)
  define c where "c = (B + 1) / 2 ^ 53 + 1 / 2 ^ 1075"
  from snoc.prems(1) have x: "0 \<le> x" and xs: "\<forall>x \<in> set xs. 0 \<le> x" by simp_all
  from xs have E: "0 \<le> sum_list xs" by (simp add: sum_list_nonneg)
  with x snoc.prems(2) have B: "sum_list xs \<le> B" "sum_list xs + x \<le> B" "0 \<le> B" by simp_all
  from B(3) have c: "0 \<le> c" by (simp add: c_def)
  have "of_nat (nonzeros xs) * c \<le> of_nat (nonzeros (xs @ [x])) * c"
    by (rule mult_right_mono [OF _ c]) (simp add: nonzeros_snoc)
  with snoc.prems(3) have small: "of_nat (nonzeros xs) * c \<le> 1" by (simp add: c_def)
  from snoc.IH [OF xs B(1)] small
  have ih: "\<bar>fsum xs - sum_list xs\<bar> \<le> of_nat (nonzeros xs) * c" by (simp add: c_def)
  from fsum_nonneg [OF xs] have s: "0 \<le> fsum xs" .
  show ?case
  proof (cases "x = 0")
    case True
    with ih have "\<bar>fsum (xs @ [x]) - sum_list (xs @ [x])\<bar> \<le> of_nat (nonzeros (xs @ [x])) * c"
      by (simp add: fsum_snoc fadd_def fsum_fl [OF xs] nonzeros_snoc)
    then show ?thesis by (simp only: c_def)
  next
    case False
    from s x have sx: "0 \<le> fsum xs + x" by simp
    from ih small B(2) have le: "fsum xs + x \<le> B + 1" by linarith
    then have "(fsum xs + x) / 2 ^ 53 \<le> (B + 1) / 2 ^ 53" by (simp add: divide_right_mono)
    with fl_error [OF sx] have "\<bar>fl (fsum xs + x) - (fsum xs + x)\<bar> \<le> c"
      unfolding c_def by linarith
    with ih have "\<bar>fl (fsum xs + x) - (sum_list xs + x)\<bar> \<le> of_nat (nonzeros xs) * c + c"
      by linarith
    with False have "\<bar>fsum (xs @ [x]) - sum_list (xs @ [x])\<bar> \<le> of_nat (nonzeros (xs @ [x])) * c"
      by (simp add: fsum_snoc fadd_def nonzeros_snoc algebra_simps)
    then show ?thesis by (simp only: c_def)
  qed
qed

text \<open>The quotients of non-negative floats by a positive float, each rounded.\<close>

lemma quotients_error:
  assumes "\<forall>x \<in> set xs. 0 \<le> x" and "0 < T"
  shows "\<bar>sum_list (map (\<lambda>w. fdiv w T) xs) - sum_list xs / T\<bar>
         \<le> (sum_list xs / T) / 2 ^ 53 + of_nat (nonzeros xs) / 2 ^ 1075"
  using assms(1)
proof (induction xs)
  case Nil
  then show ?case by simp
next
  case (Cons x xs)
  then have x: "0 \<le> x" and xs: "\<forall>x \<in> set xs. 0 \<le> x" by simp_all
  note ih = Cons.IH [OF xs]
  show ?case
  proof (cases "x = 0")
    case True
    then show ?thesis using ih by (simp add: fdiv_def nonzeros_Cons)
  next
    case False
    from x assms(2) have "0 \<le> x / T" by simp
    from fl_error [OF this] have "\<bar>fdiv x T - x / T\<bar> \<le> (x / T) / 2 ^ 53 + 1 / 2 ^ 1075"
      by (simp add: fdiv_def)
    with ih have "\<bar>(fdiv x T + sum_list (map (\<lambda>w. fdiv w T) xs)) - (x / T + sum_list xs / T)\<bar>
       \<le> ((x / T) / 2 ^ 53 + (sum_list xs / T) / 2 ^ 53) + (1 / 2 ^ 1075 + of_nat (nonzeros xs) / 2 ^ 1075)"
      by linarith
    then show ?thesis using False by (simp add: nonzeros_Cons add_divide_distrib)
  qed
qed

text \<open>The exact sum of the powers is a geometric sum.\<close>

lemma geometric_sum_list:
  "sum_list (map (\<lambda>i. d ^ i) [0..<n]) * (1 - d) = 1 - (d::rat) ^ n"
proof (induction n)
  case 0
  then show ?case by simp
next
  case (Suc n)
  have "sum_list (map (\<lambda>i. d ^ i) [0..<Suc n]) * (1 - d) =
        sum_list (map (\<lambda>i. d ^ i) [0..<n]) * (1 - d) + d ^ n * (1 - d)"
    by (simp add: algebra_simps)
  also have "\<dots> = 1 - d ^ n + d ^ n * (1 - d)" by (simp only: Suc.IH)
  also have "\<dots> = 1 - d ^ Suc n" by (simp add: algebra_simps)
  finally show ?case .
qed

lemma powers_sum_le: "sum_list (map fpow [0..<n]) \<le> 16"
proof -
  define d :: rat where "d = 3602879701896397 / 4503599627370496"
  have d: "0 \<le> d" "d < 1" by (simp_all add: d_def)
  have "sum_list (map fpow [0..<n]) \<le> sum_list (map (\<lambda>i. 3 * d ^ i) [0..<n])"
  proof (rule sum_list_mono)
    fix i
    have "0 \<le> d ^ i" using d(1) by simp
    from fl_le_triple [OF this] show "fpow i \<le> 3 * d ^ i" by (simp add: fpow_def fl_four_fifths d_def)
  qed
  also have "\<dots> = 3 * sum_list (map (\<lambda>i. d ^ i) [0..<n])" by (simp add: sum_list_const_mult)
  finally have le: "sum_list (map fpow [0..<n]) \<le> 3 * sum_list (map (\<lambda>i. d ^ i) [0..<n])" .
  have "sum_list (map (\<lambda>i. d ^ i) [0..<n]) * (1 - d) \<le> 1"
    using d(1) by (simp add: geometric_sum_list)
  moreover have "1 - d = 900719925474099 / 4503599627370496" by (simp add: d_def)
  ultimately have "sum_list (map (\<lambda>i. d ^ i) [0..<n]) \<le> 16 / 3" by simp
  with le show ?thesis by simp
qed

lemma powers_sum_ge: "0 < n \<Longrightarrow> 1 \<le> sum_list (map fpow [0..<n])"
proof -
  assume "0 < n"
  then have "[0..<n] = 0 # [1..<n]" by (simp add: upt_conv_Cons)
  then have "sum_list (map fpow [0..<n]) = 1 + sum_list (map fpow [1..<n])" by simp
  moreover have "0 \<le> sum_list (map fpow [1..<n])" by (rule sum_list_nonneg) (auto simp: fpow_nonneg)
  ultimately show ?thesis by simp
qed

lemma nonzeros_powers: "nonzeros (map fpow [0..<n]) \<le> 4304"
proof (cases "n \<le> 4304")
  case True
  with nonzeros_le_length [of "map fpow [0..<n]"] show ?thesis by simp
next
  case False
  then have "n = 4304 + (n - 4304)" by simp
  then have "[0..<n] = [0..<4304] @ [4304..<4304 + (n - 4304)]"
    by (metis upt_add_eq_append zero_le)
  then have "nonzeros (map fpow [0..<n]) =
      nonzeros (map fpow [0..<4304]) + nonzeros (map fpow [4304..<4304 + (n - 4304)])"
    by (simp add: nonzeros_append)
  moreover have "nonzeros (map fpow [4304..<4304 + (n - 4304)]) = 0"
    by (rule nonzeros_zero) (auto simp: fpow_underflow)
  moreover have "nonzeros (map fpow [0..<4304]) \<le> 4304"
    using nonzeros_le_length [of "map fpow [0..<4304]"] by simp
  ultimately show ?thesis by simp
qed

text \<open>The floating-point sum of the powers, whatever the number of rounds.\<close>

lemma total_weight_error:
  "\<bar>fsum (map fpow [0..<n]) - sum_list (map fpow [0..<n])\<bar> \<le> 1 / 2 ^ 36"
proof -
  have c: "(0::rat) \<le> (16 + 1) / 2 ^ 53 + 1 / 2 ^ 1075" by simp
  have n: "(of_nat (nonzeros (map fpow [0..<n])) :: rat) \<le> 4304"
    using nonzeros_powers [of n] by (metis of_nat_le_iff of_nat_numeral)
  have b: "of_nat (nonzeros (map fpow [0..<n])) * ((16 + 1) / 2 ^ 53 + 1 / 2 ^ 1075)
        \<le> (4304::rat) * ((16 + 1) / 2 ^ 53 + 1 / 2 ^ 1075)"
    by (rule mult_right_mono [OF n c])
  have v: "(4304::rat) * ((16 + 1) / 2 ^ 53 + 1 / 2 ^ 1075) \<le> 1 / 2 ^ 36" by simp
  have "\<bar>fsum (map fpow [0..<n]) - sum_list (map fpow [0..<n])\<bar>
        \<le> of_nat (nonzeros (map fpow [0..<n])) * ((16 + 1) / 2 ^ 53 + 1 / 2 ^ 1075)"
  proof (rule fsum_error)
    show "\<forall>x \<in> set (map fpow [0..<n]). 0 \<le> x" by (auto simp: fpow_nonneg)
    show "sum_list (map fpow [0..<n]) \<le> 16" by (rule powers_sum_le)
    have "(1::rat) / 2 ^ 36 \<le> 1" by simp
    from order_trans [OF order_trans [OF b v] this]
    show "of_nat (nonzeros (map fpow [0..<n])) * ((16 + 1) / 2 ^ 53 + 1 / 2 ^ 1075) \<le> (1::rat)" .
  qed
  with b v show ?thesis by linarith
qed

lemma total_weight_le: "fsum (map fpow [0..<n]) \<le> 17"
proof -
  have "(1::rat) / 2 ^ 36 \<le> 1" by simp
  with total_weight_error [of n] powers_sum_le [of n] show ?thesis by linarith
qed

text \<open>The weights, as rationals, add up to \<open>1\<close> within \<open>2 ^ -35\<close>.\<close>

lemma weights_sum_error:
  assumes "0 \<le> h"
  shows "\<bar>sum_list (weights h) - 1\<bar> \<le> 1 / 2 ^ 35"
proof -
  define ps where "ps = map fpow [0..<nat (h + 1)]"
  define T where "T = fsum ps"
  define P where "P = sum_list ps"
  from assms have n: "0 < nat (h + 1)" by simp
  have T1: "1 \<le> T" unfolding T_def ps_def by (rule total_weight_ge_1 [OF n])
  have P1: "1 \<le> P" unfolding P_def ps_def by (rule powers_sum_ge [OF n])
  have TP: "\<bar>T - P\<bar> \<le> 1 / 2 ^ 36" unfolding T_def P_def ps_def by (rule total_weight_error)
  have nn: "\<forall>x \<in> set ps. 0 \<le> x" by (auto simp: ps_def fpow_nonneg)
  have W: "weights h = map (\<lambda>w. fdiv w T) ps" by (simp add: weights_def Let_def ps_def T_def)
  from T1 have Tpos: "0 < T" by simp
  have nz: "(of_nat (nonzeros ps) :: rat) \<le> 4304"
    unfolding ps_def using nonzeros_powers [of "nat (h + 1)"] by (metis of_nat_le_iff of_nat_numeral)
  have q: "\<bar>P / T - 1\<bar> \<le> 1 / 2 ^ 36"
  proof -
    have "\<bar>P / T - 1\<bar> = \<bar>P - T\<bar> / T" using Tpos by (simp add: field_simps abs_divide)
    also have "\<dots> \<le> \<bar>P - T\<bar> / 1" using Tpos by (intro divide_left_mono T1) simp_all
    also have "\<dots> \<le> 1 / 2 ^ 36" using TP by (simp add: abs_minus_commute)
    finally show ?thesis .
  qed
  moreover have "(1::rat) / 2 ^ 36 \<le> 1" by simp
  ultimately have q2: "P / T \<le> 2" by linarith
  from quotients_error [OF nn Tpos]
  have "\<bar>sum_list (weights h) - P / T\<bar> \<le> (P / T) / 2 ^ 53 + of_nat (nonzeros ps) / 2 ^ 1075"
    by (simp only: W P_def)
  moreover have "(P / T) / 2 ^ 53 \<le> 2 / 2 ^ 53" using q2 by (simp add: divide_right_mono)
  moreover have "(of_nat (nonzeros ps) :: rat) / 2 ^ 1075 \<le> 4304 / 2 ^ 1075"
    using nz by (simp add: divide_right_mono)
  ultimately have "\<bar>sum_list (weights h) - 1\<bar> \<le> 1 / 2 ^ 36 + 2 / 2 ^ 53 + 4304 / 2 ^ 1075"
    using q by linarith
  then show ?thesis by simp
qed

lemma nonzeros_weights: "nonzeros (weights h) \<le> 4304"
proof -
  have "nonzeros (weights h) \<le> nonzeros (map fpow [0..<nat (h + 1)])"
    unfolding weights_def Let_def by (rule nonzeros_map) (simp add: fdiv_def)
  with nonzeros_powers [of "nat (h + 1)"] show ?thesis by simp
qed

text \<open>Their floating-point sum, the score of a graph against itself, is \<open>1\<close> within
  \<open>10 ^ -10\<close>.\<close>

lemma fsum_weights_error:
  assumes "0 \<le> h"
  shows "\<bar>fsum (weights h) - 1\<bar> \<le> 1 / 10 ^ 10"
proof -
  have nn: "\<forall>x \<in> set (weights h). 0 \<le> x"
    by (auto simp: in_set_conv_nth weights_range)
  from weights_sum_error [OF assms] have W: "\<bar>sum_list (weights h) - 1\<bar> \<le> 1 / 2 ^ 35" .
  moreover have "(1::rat) / 2 ^ 35 \<le> 1" by simp
  ultimately have W2: "sum_list (weights h) \<le> 2" by linarith
  have c: "(0::rat) \<le> (2 + 1) / 2 ^ 53 + 1 / 2 ^ 1075" by simp
  have n: "(of_nat (nonzeros (weights h)) :: rat) \<le> 4304"
    using nonzeros_weights [of h] by (metis of_nat_le_iff of_nat_numeral)
  have b: "of_nat (nonzeros (weights h)) * ((2 + 1) / 2 ^ 53 + 1 / 2 ^ 1075)
        \<le> (4304::rat) * ((2 + 1) / 2 ^ 53 + 1 / 2 ^ 1075)"
    by (rule mult_right_mono [OF n c])
  have v: "(4304::rat) * ((2 + 1) / 2 ^ 53 + 1 / 2 ^ 1075) \<le> 1 / 2 ^ 38" by simp
  have "\<bar>fsum (weights h) - sum_list (weights h)\<bar>
        \<le> of_nat (nonzeros (weights h)) * ((2 + 1) / 2 ^ 53 + 1 / 2 ^ 1075)"
  proof (rule fsum_error [OF nn W2])
    have "(1::rat) / 2 ^ 38 \<le> 1" by simp
    from order_trans [OF order_trans [OF b v] this]
    show "of_nat (nonzeros (weights h)) * ((2 + 1) / 2 ^ 53 + 1 / 2 ^ 1075) \<le> (1::rat)" .
  qed
  with b v have "\<bar>fsum (weights h) - sum_list (weights h)\<bar> \<le> 1 / 2 ^ 38" by linarith
  with W have "\<bar>fsum (weights h) - 1\<bar> \<le> 1 / 2 ^ 38 + 1 / 2 ^ 35" by linarith
  then show ?thesis by simp
qed

text \<open>Two numbers that are not tiny and differ by a tenth are rounded to different
  floats.\<close>

lemma fl_strict:
  assumes x: "1 / 2 ^ 1010 \<le> x" and y: "11 / 10 * x \<le> y"
  shows "fl x < fl y"
proof -
  have "(0::rat) < 1 / 2 ^ 1010" by simp
  from less_le_trans [OF this x] have xpos: "0 < x" .
  with y have ypos: "0 < y" by linarith
  have "(1000::rat) \<le> 2 ^ 53" by simp
  then have a: "x / 2 ^ 53 \<le> x / 1000" "y / 2 ^ 53 \<le> y / 1000"
    using xpos ypos by (simp_all add: frac_le)
  have "(1::rat) / 2 ^ 1075 \<le> (1 / 2 ^ 1010) / 1000" by simp
  also have "\<dots> \<le> x / 1000" using x by (simp add: divide_right_mono)
  finally have e: "1 / 2 ^ 1075 \<le> x / 1000" .
  from fl_upper [of x] xpos have "fl x \<le> x + x / 2 ^ 53 + 1 / 2 ^ 1075" by simp
  with a(1) e have u: "fl x \<le> x + x / 1000 + x / 1000" by linarith
  from fl_lower [of y] ypos have "y - y / 2 ^ 53 - 1 / 2 ^ 1075 \<le> fl y" by simp
  with a(2) e have l: "y - y / 1000 - x / 1000 \<le> fl y" by linarith
  from u l y xpos show ?thesis by linarith
qed

lemma powers_strict:
  assumes "i < 3000"
  shows "11 / 10 * fpow (Suc i) \<le> fpow i" and "1 / 2 ^ 1001 \<le> fpow (Suc i)"
proof -
  define d :: rat where "d = 3602879701896397 / 4503599627370496"
  have d: "0 \<le> d" "d \<le> 1" "d \<le> 81 / 100" by (simp_all add: d_def)
  have "1 / 2 \<le> d ^ 3" by (simp add: d_def power_divide)
  then have "(1 / 2) ^ 1000 \<le> (d ^ 3) ^ 1000" by (intro power_mono) simp_all
  then have "(1 / 2) ^ 1000 \<le> d ^ 3000" by (simp add: power_mult [symmetric])
  moreover have "d ^ 3000 \<le> d ^ Suc i" using assms d by (intro power_decreasing) simp_all
  ultimately have low: "1 / 2 ^ 1000 \<le> d ^ Suc i" by (simp add: power_divide)
  define D where "D = d ^ i"
  define D' where "D' = d ^ Suc i"
  have D: "0 \<le> D" "0 \<le> D'" using d(1) by (simp_all add: D_def D'_def)
  have "D' = d * D" by (simp add: D_def D'_def)
  also have "\<dots> \<le> 81 / 100 * D" by (rule mult_right_mono [OF d(3) D(1)])
  finally have step: "D' \<le> 81 / 100 * D" .
  have "(1000::rat) \<le> 2 ^ 53" by simp
  then have a: "D / 2 ^ 53 \<le> D / 1000" "D' / 2 ^ 53 \<le> D' / 1000"
    using D by (simp_all add: frac_le)
  have "(1::rat) / 2 ^ 1075 \<le> (1 / 2 ^ 1000) / 1000" by simp
  also have "\<dots> \<le> D' / 1000" using low by (simp add: divide_right_mono D'_def)
  finally have e: "1 / 2 ^ 1075 \<le> D' / 1000" .
  have p: "fpow i = fl D" "fpow (Suc i) = fl D'"
    by (simp_all only: fpow_def fl_four_fifths D_def D'_def d_def)
  from fl_upper [OF D(2)] a(2) e have u: "fl D' \<le> D' + D' / 1000 + D' / 1000" by linarith
  from fl_lower [OF D(1)] a(1) e step D(1) have l: "D - D / 1000 - D / 1000 \<le> fl D" by linarith
  from u l step D show "11 / 10 * fpow (Suc i) \<le> fpow i" unfolding p by linarith
  from fl_lower [OF D(2)] a(2) e have "D' - D' / 1000 - D' / 1000 \<le> fl D'" by linarith
  moreover have "(1::rat) / 2 ^ 1001 \<le> (1 / 2 ^ 1000) * (998 / 1000)" by simp
  moreover have "(1 / 2 ^ 1000) * (998 / 1000) \<le> D' * (998 / 1000)"
    using low by (intro mult_right_mono) (simp_all add: D'_def)
  ultimately show "1 / 2 ^ 1001 \<le> fpow (Suc i)" unfolding p by linarith
qed

text \<open>Over the first 3000 rounds every weight is strictly smaller than the one before
  it.\<close>

lemma weights_strict:
  assumes i: "Suc i < nat (h + 1)" and s: "i < 3000"
  shows "weights h ! Suc i < weights h ! i"
proof -
  define T where "T = fsum (map fpow [0..<nat (h + 1)])"
  from i have i': "i < nat (h + 1)" and n: "0 < nat (h + 1)" by simp_all
  have T: "1 \<le> T" "T \<le> 17"
    unfolding T_def by (rule total_weight_ge_1 [OF n], rule total_weight_le)
  then have Tpos: "0 < T" by simp
  note p = powers_strict [OF s]
  have "11 / 10 * (fpow (Suc i) / T) = (11 / 10 * fpow (Suc i)) / T" by simp
  also have "\<dots> \<le> fpow i / T" using p(1) Tpos by (intro divide_right_mono) simp_all
  finally have y: "11 / 10 * (fpow (Suc i) / T) \<le> fpow i / T" .
  have "(1::rat) / 2 ^ 1010 \<le> (1 / 2 ^ 1001) / 17" by simp
  also have "\<dots> \<le> fpow (Suc i) / 17" using p(2) by (intro divide_right_mono) simp_all
  also have "\<dots> \<le> fpow (Suc i) / T"
    using T Tpos fpow_nonneg [of "Suc i"] by (intro divide_left_mono) simp_all
  finally have x: "1 / 2 ^ 1010 \<le> fpow (Suc i) / T" .
  from fl_strict [OF x y] show ?thesis
    by (simp only: weights_nth [OF i] weights_nth [OF i'] fdiv_def T_def)
qed

section \<open>The Scorer: histograms\<close>

lemma counter_get_update:
  "counter_get (AList.update x c h) l = (if l = x then c else counter_get h l)"
  by (simp add: counter_get_def update_conv')

lemma counter_fold:
  "counter_get (fold (\<lambda>x h. AList.update x (Suc (counter_get h x)) h) xs h) l =
     count_list xs l + counter_get h l"
  by (induction xs arbitrary: h) (simp_all add: counter_get_update)

lemma keys_fold:
  "fst ` set (fold (\<lambda>x h. AList.update x (Suc (counter_get h x)) h) xs h) = set xs \<union> fst ` set h"
  by (induction xs arbitrary: h) (auto simp: dom_update)

lemma counter_get_Nil [simp]: "counter_get [] l = 0"
  by (simp add: counter_get_def)

lemma counter_get_Counter: "counter_get (Counter xs) l = count_list xs l"
  by (simp add: Counter_def counter_fold)

lemma keys_Counter: "fst ` set (Counter xs) = set xs"
  by (simp add: Counter_def keys_fold)

lemma positive_Counter: "xs \<noteq> [] \<Longrightarrow> positive_hist (Counter xs)"
proof -
  assume "xs \<noteq> []"
  then obtain x where x: "x \<in> set xs" by (cases xs) auto
  then have "0 < count_list xs x" by (metis count_list_0_iff gr0I)
  with x show ?thesis
    using keys_Counter [of xs] by (auto simp: positive_hist_def list_ex_iff counter_get_Counter)
qed

lemma collect_map_Some:
  "(\<And>x. x \<in> set xs \<Longrightarrow> f x \<noteq> None) \<Longrightarrow>
   \<exists>ys. collect (map f xs) = Some ys \<and> length ys = length xs"
proof (induction xs)
  case Nil
  then show ?case by simp
next
  case (Cons x xs)
  then obtain ys where ys: "collect (map f xs) = Some ys" "length ys = length xs" by auto
  from Cons.prems [of x] obtain y where "f x = Some y" by auto
  with ys show ?case by simp
qed

lemma collect_length: "collect xs = Some ys \<Longrightarrow> length ys = length xs"
proof (induction xs arbitrary: ys)
  case Nil
  then show ?case by simp
next
  case (Cons x xs)
  then show ?case by (cases x) (auto split: option.splits)
qed

lemma wl_of_labelled:
  "labelled G \<Longrightarrow> n \<in> fst ` set (nodes G) \<Longrightarrow> wl_of G n \<noteq> None"
proof -
  assume lab: "labelled G" and n: "n \<in> fst ` set (nodes G)"
  from n obtain d where d: "map_of (nodes G) n = Some d"
    by (metis map_of_eq_None_iff not_Some_eq)
  then have "(n, d) \<in> set (nodes G)" by (rule map_of_SomeD)
  with lab have "wl_label d \<noteq> None" by (auto simp: labelled_def list_all_iff)
  with d show ?thesis by (simp add: wl_of_def)
qed

lemma histogram_labelled:
  "labelled G \<Longrightarrow> \<exists>ls. histogram G = Some (Counter ls) \<and> length ls = length (nodes G)"
proof -
  assume lab: "labelled G"
  have "\<exists>ys. collect (map (wl_of G) (map fst (nodes G))) = Some ys \<and>
      length ys = length (map fst (nodes G))"
    by (rule collect_map_Some) (simp add: wl_of_labelled [OF lab])
  then show ?thesis by (auto simp: histogram_def)
qed

lemma histogram_positive:
  "labelled G \<Longrightarrow> nodes G \<noteq> [] \<Longrightarrow> \<exists>a. histogram G = Some a \<and> positive_hist a"
proof -
  assume lab: "labelled G" and ne: "nodes G \<noteq> []"
  from histogram_labelled [OF lab] obtain ls
    where ls: "histogram G = Some (Counter ls)" "length ls = length (nodes G)" by blast
  from ls(2) ne have "ls \<noteq> []" by auto
  then have "positive_hist (Counter ls)" by (rule positive_Counter)
  with ls(1) show ?thesis by blast
qed

section \<open>The Scorer: the first loop and one round of relabelling\<close>

lemma keys_init_wl [simp]: "map fst (nodes (init_wl G)) = map fst (nodes G)"
  by (simp add: init_wl_def case_prod_beta)

lemma edges_init_wl [simp]: "edges (init_wl G) = edges G"
  by (simp add: init_wl_def)

lemma labelled_init_wl [simp]: "labelled (init_wl G)"
  by (simp add: labelled_def init_wl_def list_all_iff case_prod_beta)

lemma well_formed_init_wl [simp]: "well_formed (init_wl G) = well_formed G"
  by (simp add: well_formed_def)

lemma keys_set_wl [simp]: "map fst (set_wl p ns) = map fst ns"
  unfolding set_wl_def by (induction ns) auto

lemma keys_fold_set_wl [simp]: "map fst (fold set_wl ps ns) = map fst ns"
  by (induction ps arbitrary: ns) simp_all

lemma labelled_set_wl:
  "list_all (\<lambda>p. wl_label (snd p) \<noteq> None) ns \<Longrightarrow>
   list_all (\<lambda>p. wl_label (snd p) \<noteq> None) (set_wl q ns)"
  unfolding set_wl_def by (induction ns) auto

lemma labelled_fold_set_wl:
  "list_all (\<lambda>p. wl_label (snd p) \<noteq> None) ns \<Longrightarrow>
   list_all (\<lambda>p. wl_label (snd p) \<noteq> None) (fold set_wl ps ns)"
proof (induction ps arbitrary: ns)
  case Nil
  then show ?case by simp
next
  case (Cons q ps)
  from Cons.IH [OF labelled_set_wl [OF Cons.prems, of q]] show ?case by simp
qed

lemma neighbor_label_Some:
  assumes wf: "well_formed G" and lab: "labelled G" and nb: "nb \<in> set (neighbors G n)"
  shows "neighbor_label G n nb \<noteq> None"
proof -
  from nb obtain e where e: "e \<in> set (edges G)" "fst (fst e) = n" "snd (fst e) = nb"
    by (auto simp: neighbors_def)
  with wf have "nb \<in> set (map fst (nodes G))"
    by (auto simp: well_formed_def list_all_iff)
  then have "wl_of G nb \<noteq> None" using wl_of_labelled [OF lab, of nb] by simp
  moreover from e have "(n, nb) \<in> fst ` set (edges G)"
    by (metis image_eqI prod.collapse)
  then have "map_of (edges G) (n, nb) \<noteq> None" by (simp add: map_of_eq_None_iff)
  ultimately show ?thesis by (auto simp: neighbor_label_def)
qed

lemma new_label_Some:
  assumes wf: "well_formed G" and lab: "labelled G" and n: "n \<in> fst ` set (nodes G)"
  shows "new_label G n \<noteq> None"
proof -
  from wl_of_labelled [OF lab n] obtain cur where cur: "wl_of G n = Some cur" by auto
  have "\<exists>ys. collect (map (neighbor_label G n) (neighbors G n)) = Some ys \<and>
      length ys = length (neighbors G n)"
    by (rule collect_map_Some) (rule neighbor_label_Some [OF wf lab])
  with cur show ?thesis by (auto simp: new_label_def Let_def)
qed

lemma relabel_Some:
  assumes wf: "well_formed G" and lab: "labelled G"
  shows "\<exists>G'. relabel G = Some G' \<and> well_formed G' \<and> labelled G' \<and>
           map fst (nodes G') = map fst (nodes G)"
proof -
  have "\<exists>ys. collect (map (\<lambda>n. map_option (Pair n) (new_label G n)) (map fst (nodes G))) = Some ys \<and>
      length ys = length (map fst (nodes G))"
    by (rule collect_map_Some) (simp add: new_label_Some [OF wf lab])
  then obtain ys
    where ys: "collect (map (\<lambda>n. map_option (Pair n) (new_label G n)) (map fst (nodes G))) = Some ys"
    by blast
  then have r: "relabel G = Some (G\<lparr>nodes := fold set_wl ys (nodes G)\<rparr>)"
    by (simp add: relabel_def)
  have "well_formed (G\<lparr>nodes := fold set_wl ys (nodes G)\<rparr>)"
    using wf by (simp add: well_formed_def)
  moreover have "labelled (G\<lparr>nodes := fold set_wl ys (nodes G)\<rparr>)"
    using labelled_fold_set_wl [of "nodes G" ys] lab unfolding labelled_def by simp
  ultimately show ?thesis using r by simp
qed

section \<open>The Scorer: the rounds\<close>

lemma wl_rounds_Some:
  "well_formed G1 \<Longrightarrow> labelled G1 \<Longrightarrow> well_formed G2 \<Longrightarrow> labelled G2 \<Longrightarrow>
   \<exists>A B. wl_rounds k G1 G2 H1 H2 = Some (A, B)"
proof (induction k arbitrary: G1 G2 H1 H2)
  case 0
  show ?case by simp
next
  case (Suc k)
  from relabel_Some [OF Suc.prems(1,2)] obtain G1'
    where g1: "relabel G1 = Some G1'" "well_formed G1'" "labelled G1'" by blast
  from relabel_Some [OF Suc.prems(3,4)] obtain G2'
    where g2: "relabel G2 = Some G2'" "well_formed G2'" "labelled G2'" by blast
  from histogram_labelled [OF g1(3)] obtain a where a: "histogram G1' = Some a" by blast
  from histogram_labelled [OF g2(3)] obtain b where b: "histogram G2' = Some b" by blast
  from Suc.IH [OF g1(2,3) g2(2,3), of "H1 @ [a]" "H2 @ [b]"] g1(1) g2(1) a b
  show ?case by simp
qed

lemma wl_rounds_identical:
  "well_formed G \<Longrightarrow> labelled G \<Longrightarrow> nodes G \<noteq> [] \<Longrightarrow> list_all positive_hist H \<Longrightarrow>
   \<exists>A. wl_rounds k G G H H = Some (A, A) \<and> length A = length H + k \<and> list_all positive_hist A"
proof (induction k arbitrary: G H)
  case 0
  then show ?case by simp
next
  case (Suc k)
  from relabel_Some [OF Suc.prems(1,2)] obtain G'
    where g: "relabel G = Some G'" "well_formed G'" "labelled G'"
      "map fst (nodes G') = map fst (nodes G)" by blast
  from g(4) Suc.prems(3) have ne: "nodes G' \<noteq> []" by (metis map_is_Nil_conv)
  from histogram_positive [OF g(3) ne] obtain a
    where a: "histogram G' = Some a" "positive_hist a" by blast
  from a(2) Suc.prems(4) have "list_all positive_hist (H @ [a])" by simp
  from Suc.IH [OF g(2,3) ne this] g(1) a(1) show ?case by simp
qed

lemma wl_rounds_same_identical:
  "well_formed G \<Longrightarrow> labelled G \<Longrightarrow> nodes G \<noteq> [] \<Longrightarrow> list_all positive_hist H \<Longrightarrow>
   \<exists>A. wl_rounds_same k G H H = Some (A, A) \<and> length A = length H + k \<and>
       list_all positive_hist A"
proof (induction k arbitrary: G H)
  case 0
  then show ?case by simp
next
  case (Suc k)
  from relabel_Some [OF Suc.prems(1,2)] obtain G'
    where g: "relabel G = Some G'" "well_formed G'" "labelled G'"
      "map fst (nodes G') = map fst (nodes G)" by blast
  from relabel_Some [OF g(2,3)] obtain G''
    where g': "relabel G' = Some G''" "well_formed G''" "labelled G''"
      "map fst (nodes G'') = map fst (nodes G')" by blast
  from g(4) g'(4) Suc.prems(3) have ne: "nodes G'' \<noteq> []" by (metis map_is_Nil_conv)
  from histogram_positive [OF g'(3) ne] obtain a
    where a: "histogram G'' = Some a" "positive_hist a" by blast
  from a(2) Suc.prems(4) have "list_all positive_hist (H @ [a])" by simp
  from Suc.IH [OF g'(2,3) ne this] g(1) g'(1) a(1) show ?case by simp
qed

section \<open>The Scorer: the weights and their sums for some numbers of rounds\<close>

text \<open>The powers \<^verbatim>\<open>0.8**i\<close> for \<open>i \<le> 13\<close>.\<close>

lemma fpow_1: "fpow 1 = 3602879701896397 / 4503599627370496"
  unfolding fpow_def fl_four_fifths by (rule fl_cert [where n = 53 and m = 7205759403792794]) (simp_all add: power_divide)

lemma fpow_2: "fpow 2 = 1441151880758559 / 2251799813685248"
  unfolding fpow_def fl_four_fifths by (rule fl_cert [where n = 53 and m = 5764607523034236]) (simp_all add: power_divide)

lemma fpow_3: "fpow 3 = 4611686018427389 / 9007199254740992"
  unfolding fpow_def fl_four_fifths by (rule fl_cert [where n = 53 and m = 4611686018427389]) (simp_all add: power_divide)

lemma fpow_4: "fpow 4 = 3689348814741911 / 9007199254740992"
  unfolding fpow_def fl_four_fifths by (rule fl_cert [where n = 54 and m = 7378697629483822]) (simp_all add: power_divide)

lemma fpow_5: "fpow 5 = 2951479051793529 / 9007199254740992"
  unfolding fpow_def fl_four_fifths by (rule fl_cert [where n = 54 and m = 5902958103587058]) (simp_all add: power_divide)

lemma fpow_6: "fpow 6 = 4722366482869647 / 18014398509481984"
  unfolding fpow_def fl_four_fifths by (rule fl_cert [where n = 54 and m = 4722366482869647]) (simp_all add: power_divide)

lemma fpow_7: "fpow 7 = 7555786372591435 / 36028797018963968"
  unfolding fpow_def fl_four_fifths by (rule fl_cert [where n = 55 and m = 7555786372591435]) (simp_all add: power_divide)

lemma fpow_8: "fpow 8 = 6044629098073149 / 36028797018963968"
  unfolding fpow_def fl_four_fifths by (rule fl_cert [where n = 55 and m = 6044629098073149]) (simp_all add: power_divide)

lemma fpow_9: "fpow 9 = 4835703278458519 / 36028797018963968"
  unfolding fpow_def fl_four_fifths by (rule fl_cert [where n = 55 and m = 4835703278458519]) (simp_all add: power_divide)

lemma fpow_10: "fpow 10 = 7737125245533631 / 72057594037927936"
  unfolding fpow_def fl_four_fifths by (rule fl_cert [where n = 56 and m = 7737125245533631]) (simp_all add: power_divide)

lemma fpow_11: "fpow 11 = 6189700196426905 / 72057594037927936"
  unfolding fpow_def fl_four_fifths by (rule fl_cert [where n = 56 and m = 6189700196426905]) (simp_all add: power_divide)

lemma fpow_12: "fpow 12 = 1237940039285381 / 18014398509481984"
  unfolding fpow_def fl_four_fifths by (rule fl_cert [where n = 56 and m = 4951760157141524]) (simp_all add: power_divide)

lemma fpow_13: "fpow 13 = 7922816251426439 / 144115188075855872"
  unfolding fpow_def fl_four_fifths by (rule fl_cert [where n = 57 and m = 7922816251426439]) (simp_all add: power_divide)

lemmas fpow_values = fpow_0 fpow_1 fpow_2 fpow_3 fpow_4 fpow_5 fpow_6 fpow_7 fpow_8 fpow_9 fpow_10 fpow_11 fpow_12 fpow_13

text \<open>Their sums from the left, as \<^verbatim>\<open>sum\<close> forms them.\<close>

lemma total_0: "fadd 0 1 = 1"
  by (simp add: fadd_def)

lemma total_1: "fadd 1 (3602879701896397 / 4503599627370496) = 8106479329266893 / 4503599627370496"
  unfolding fadd_def by (rule fl_cert [where n = 52 and m = 8106479329266893]) (simp_all add: power_divide)

lemma total_2: "fadd (8106479329266893 / 4503599627370496) (1441151880758559 / 2251799813685248) = 2747195772696003 / 1125899906842624"
  unfolding fadd_def by (rule fl_cert [where n = 51 and m = 5494391545392006]) (simp_all add: power_divide)

lemma total_3: "fadd (2747195772696003 / 1125899906842624) (4611686018427389 / 9007199254740992) = 6647313049998853 / 2251799813685248"
  unfolding fadd_def by (rule fl_cert [where n = 51 and m = 6647313049998853]) (simp_all add: power_divide)

lemma total_4: "fadd (6647313049998853 / 2251799813685248) (3689348814741911 / 9007199254740992) = 7569650253684331 / 2251799813685248"
  unfolding fadd_def by (rule fl_cert [where n = 51 and m = 7569650253684331]) (simp_all add: power_divide)

lemma total_5: "fadd (7569650253684331 / 2251799813685248) (2951479051793529 / 9007199254740992) = 8307520016632713 / 2251799813685248"
  unfolding fadd_def by (rule fl_cert [where n = 51 and m = 8307520016632713]) (simp_all add: power_divide)

lemma total_6: "fadd (8307520016632713 / 2251799813685248) (4722366482869647 / 18014398509481984) = 8897815826991419 / 2251799813685248"
  unfolding fadd_def by (rule fl_cert [where n = 51 and m = 8897815826991419]) (simp_all add: power_divide)

lemma total_7: "fadd (8897815826991419 / 2251799813685248) (7555786372591435 / 36028797018963968) = 585628279704899 / 140737488355328"
  unfolding fadd_def by (rule fl_cert [where n = 50 and m = 4685026237639192]) (simp_all add: power_divide)

lemma total_8: "fadd (585628279704899 / 140737488355328) (6044629098073149 / 36028797018963968) = 2436960448476989 / 562949953421312"
  unfolding fadd_def by (rule fl_cert [where n = 50 and m = 4873920896953978]) (simp_all add: power_divide)

lemma total_9: "fadd (2436960448476989 / 562949953421312) (4835703278458519 / 36028797018963968) = 5025036624405807 / 1125899906842624"
  unfolding fadd_def by (rule fl_cert [where n = 50 and m = 5025036624405807]) (simp_all add: power_divide)

lemma total_10: "fadd (5025036624405807 / 1125899906842624) (7737125245533631 / 72057594037927936) = 2572964603183635 / 562949953421312"
  unfolding fadd_def by (rule fl_cert [where n = 50 and m = 5145929206367270]) (simp_all add: power_divide)

lemma total_11: "fadd (2572964603183635 / 562949953421312) (6189700196426905 / 72057594037927936) = 655330408992055 / 140737488355328"
  unfolding fadd_def by (rule fl_cert [where n = 50 and m = 5242643271936440]) (simp_all add: power_divide)

lemma total_12: "fadd (655330408992055 / 140737488355328) (1237940039285381 / 18014398509481984) = 166250453887243 / 35184372088832"
  unfolding fadd_def by (rule fl_cert [where n = 50 and m = 5320014524391776]) (simp_all add: power_divide)

lemma total_13: "fadd (166250453887243 / 35184372088832) (7922816251426439 / 144115188075855872) = 5381911526356045 / 1125899906842624"
  unfolding fadd_def by (rule fl_cert [where n = 50 and m = 5381911526356045]) (simp_all add: power_divide)

lemmas total_steps = total_0 total_1 total_2 total_3 total_4 total_5 total_6 total_7 total_8 total_9 total_10 total_11 total_12 total_13







text \<open>The weights and their sums for \<open>h = 1\<close>.\<close>

lemma powers_1: "map fpow [0..<nat (1 + 1)] = [1, 3602879701896397 / 4503599627370496]"
proof -
  have "[0..<nat (1 + 1)] = [0, 1]" by code_simp
  then show ?thesis by (simp only: list.map fpow_values)
qed

lemma total_weight_1: "fsum [1, 3602879701896397 / 4503599627370496] = 8106479329266893 / 4503599627370496"
  unfolding fsum_def by (simp only: foldl.simps total_steps)

lemma quotient_1_0: "fdiv 1 (8106479329266893 / 4503599627370496) = 2501999792983609 / 4503599627370496"
  unfolding fdiv_def by (rule fl_cert [where n = 53 and m = 5003999585967218]) (simp_all add: power_divide)

lemma quotient_1_1: "fdiv (3602879701896397 / 4503599627370496) (8106479329266893 / 4503599627370496) = 8006399337547549 / 18014398509481984"
  unfolding fdiv_def by (rule fl_cert [where n = 54 and m = 8006399337547549]) (simp_all add: power_divide)

lemma weights_1: "weights 1 = [2501999792983609 / 4503599627370496, 8006399337547549 / 18014398509481984]"
  unfolding weights_def Let_def powers_1 total_weight_1 by (simp only: list.map quotient_1_0 quotient_1_1)




text \<open>The weights and their sums for \<open>h = 2\<close>.\<close>

lemma powers_2: "map fpow [0..<nat (2 + 1)] = [1, 3602879701896397 / 4503599627370496, 1441151880758559 / 2251799813685248]"
proof -
  have "[0..<nat (2 + 1)] = [0, 1, 2]" by code_simp
  then show ?thesis by (simp only: list.map fpow_values)
qed

lemma total_weight_2: "fsum [1, 3602879701896397 / 4503599627370496, 1441151880758559 / 2251799813685248] = 2747195772696003 / 1125899906842624"
  unfolding fsum_def by (simp only: foldl.simps total_steps)

lemma quotient_2_0: "fdiv 1 (2747195772696003 / 1125899906842624) = 7382950208804091 / 18014398509481984"
  unfolding fdiv_def by (rule fl_cert [where n = 54 and m = 7382950208804091]) (simp_all add: power_divide)

lemma quotient_2_1: "fdiv (3602879701896397 / 4503599627370496) (2747195772696003 / 1125899906842624) = 5906360167043273 / 18014398509481984"
  unfolding fdiv_def by (rule fl_cert [where n = 54 and m = 5906360167043273]) (simp_all add: power_divide)

lemma quotient_2_2: "fdiv (1441151880758559 / 2251799813685248) (2747195772696003 / 1125899906842624) = 4725088133634619 / 18014398509481984"
  unfolding fdiv_def by (rule fl_cert [where n = 54 and m = 4725088133634619]) (simp_all add: power_divide)

lemma weights_2: "weights 2 = [7382950208804091 / 18014398509481984, 5906360167043273 / 18014398509481984, 4725088133634619 / 18014398509481984]"
  unfolding weights_def Let_def powers_2 total_weight_2 by (simp only: list.map quotient_2_0 quotient_2_1 quotient_2_2)

lemma partial_2_0: "fadd 0 (7382950208804091 / 18014398509481984) = 7382950208804091 / 18014398509481984"
  unfolding fadd_def by (rule fl_cert [where n = 54 and m = 7382950208804091]) (simp_all add: power_divide)

lemma partial_2_1: "fadd (7382950208804091 / 18014398509481984) (5906360167043273 / 18014398509481984) = 3322327593961841 / 4503599627370496"
  unfolding fadd_def by (rule fl_cert [where n = 53 and m = 6644655187923682]) (simp_all add: power_divide)

lemma partial_2_2: "fadd (3322327593961841 / 4503599627370496) (4725088133634619 / 18014398509481984) = 1"
  unfolding fadd_def by (rule fl_cert [where n = 53 and m = 9007199254740992]) (simp_all add: power_divide)

lemma fsum_weights_2: "fsum (weights 2) = 1"
  unfolding weights_2 fsum_def by (simp only: foldl.simps partial_2_0 partial_2_1 partial_2_2)

text \<open>The weights and their sums for \<open>h = 3\<close>.\<close>

lemma powers_3: "map fpow [0..<nat (3 + 1)] = [1, 3602879701896397 / 4503599627370496, 1441151880758559 / 2251799813685248, 4611686018427389 / 9007199254740992]"
proof -
  have "[0..<nat (3 + 1)] = [0, 1, 2, 3]" by code_simp
  then show ?thesis by (simp only: list.map fpow_values)
qed

lemma total_weight_3: "fsum [1, 3602879701896397 / 4503599627370496, 1441151880758559 / 2251799813685248, 4611686018427389 / 9007199254740992] = 6647313049998853 / 2251799813685248"
  unfolding fsum_def by (simp only: foldl.simps total_steps)

lemma quotient_3_0: "fdiv 1 (6647313049998853 / 2251799813685248) = 762804814934027 / 2251799813685248"
  unfolding fdiv_def by (rule fl_cert [where n = 54 and m = 6102438519472216]) (simp_all add: power_divide)

lemma quotient_3_1: "fdiv (3602879701896397 / 4503599627370496) (6647313049998853 / 2251799813685248) = 4881950815577773 / 18014398509481984"
  unfolding fdiv_def by (rule fl_cert [where n = 54 and m = 4881950815577773]) (simp_all add: power_divide)

lemma quotient_3_2: "fdiv (1441151880758559 / 2251799813685248) (6647313049998853 / 2251799813685248) = 3905560652462219 / 18014398509481984"
  unfolding fdiv_def by (rule fl_cert [where n = 55 and m = 7811121304924438]) (simp_all add: power_divide)

lemma quotient_3_3: "fdiv (4611686018427389 / 9007199254740992) (6647313049998853 / 2251799813685248) = 6248897043939551 / 36028797018963968"
  unfolding fdiv_def by (rule fl_cert [where n = 55 and m = 6248897043939551]) (simp_all add: power_divide)

lemma weights_3: "weights 3 = [762804814934027 / 2251799813685248, 4881950815577773 / 18014398509481984, 3905560652462219 / 18014398509481984, 6248897043939551 / 36028797018963968]"
  unfolding weights_def Let_def powers_3 total_weight_3 by (simp only: list.map quotient_3_0 quotient_3_1 quotient_3_2 quotient_3_3)




















text \<open>The weights and their sums for \<open>h = 13\<close>.\<close>

lemma powers_13: "map fpow [0..<nat (13 + 1)] = [1, 3602879701896397 / 4503599627370496, 1441151880758559 / 2251799813685248, 4611686018427389 / 9007199254740992, 3689348814741911 / 9007199254740992, 2951479051793529 / 9007199254740992, 4722366482869647 / 18014398509481984, 7555786372591435 / 36028797018963968, 6044629098073149 / 36028797018963968, 4835703278458519 / 36028797018963968, 7737125245533631 / 72057594037927936, 6189700196426905 / 72057594037927936, 1237940039285381 / 18014398509481984, 7922816251426439 / 144115188075855872]"
proof -
  have "[0..<nat (13 + 1)] = [0, 1, 2, 3, 4, 5, 6, 7, 8, 9, 10, 11, 12, 13]" by code_simp
  then show ?thesis by (simp only: list.map fpow_values)
qed

lemma total_weight_13: "fsum [1, 3602879701896397 / 4503599627370496, 1441151880758559 / 2251799813685248, 4611686018427389 / 9007199254740992, 3689348814741911 / 9007199254740992, 2951479051793529 / 9007199254740992, 4722366482869647 / 18014398509481984, 7555786372591435 / 36028797018963968, 6044629098073149 / 36028797018963968, 4835703278458519 / 36028797018963968, 7737125245533631 / 72057594037927936, 6189700196426905 / 72057594037927936, 1237940039285381 / 18014398509481984, 7922816251426439 / 144115188075855872] = 5381911526356045 / 1125899906842624"
  unfolding fsum_def by (simp only: foldl.simps total_steps)

lemma quotient_13_0: "fdiv 1 (5381911526356045 / 1125899906842624) = 1884312804505017 / 9007199254740992"
  unfolding fdiv_def by (rule fl_cert [where n = 55 and m = 7537251218020068]) (simp_all add: power_divide)

lemma quotient_13_1: "fdiv (3602879701896397 / 4503599627370496) (5381911526356045 / 1125899906842624) = 3014900487208027 / 18014398509481984"
  unfolding fdiv_def by (rule fl_cert [where n = 55 and m = 6029800974416054]) (simp_all add: power_divide)

lemma quotient_13_2: "fdiv (1441151880758559 / 2251799813685248) (5381911526356045 / 1125899906842624) = 1205960194883211 / 9007199254740992"
  unfolding fdiv_def by (rule fl_cert [where n = 55 and m = 4823840779532844]) (simp_all add: power_divide)

lemma quotient_13_3: "fdiv (4611686018427389 / 9007199254740992) (5381911526356045 / 1125899906842624) = 7718145247252551 / 72057594037927936"
  unfolding fdiv_def by (rule fl_cert [where n = 56 and m = 7718145247252551]) (simp_all add: power_divide)

lemma quotient_13_4: "fdiv (3689348814741911 / 9007199254740992) (5381911526356045 / 1125899906842624) = 771814524725255 / 9007199254740992"
  unfolding fdiv_def by (rule fl_cert [where n = 56 and m = 6174516197802040]) (simp_all add: power_divide)

lemma quotient_13_5: "fdiv (2951479051793529 / 9007199254740992) (5381911526356045 / 1125899906842624) = 4939612958241633 / 72057594037927936"
  unfolding fdiv_def by (rule fl_cert [where n = 56 and m = 4939612958241633]) (simp_all add: power_divide)

lemma quotient_13_6: "fdiv (4722366482869647 / 18014398509481984) (5381911526356045 / 1125899906842624) = 7903380733186613 / 144115188075855872"
  unfolding fdiv_def by (rule fl_cert [where n = 57 and m = 7903380733186613]) (simp_all add: power_divide)

lemma quotient_13_7: "fdiv (7555786372591435 / 36028797018963968) (5381911526356045 / 1125899906842624) = 3161352293274645 / 72057594037927936"
  unfolding fdiv_def by (rule fl_cert [where n = 57 and m = 6322704586549290]) (simp_all add: power_divide)

lemma quotient_13_8: "fdiv (6044629098073149 / 36028797018963968) (5381911526356045 / 1125899906842624) = 5058163669239433 / 144115188075855872"
  unfolding fdiv_def by (rule fl_cert [where n = 57 and m = 5058163669239433]) (simp_all add: power_divide)

lemma quotient_13_9: "fdiv (4835703278458519 / 36028797018963968) (5381911526356045 / 1125899906842624) = 8093061870783093 / 288230376151711744"
  unfolding fdiv_def by (rule fl_cert [where n = 58 and m = 8093061870783093]) (simp_all add: power_divide)

lemma quotient_13_10: "fdiv (7737125245533631 / 72057594037927936) (5381911526356045 / 1125899906842624) = 6474449496626475 / 288230376151711744"
  unfolding fdiv_def by (rule fl_cert [where n = 58 and m = 6474449496626475]) (simp_all add: power_divide)

lemma quotient_13_11: "fdiv (6189700196426905 / 72057594037927936) (5381911526356045 / 1125899906842624) = 1294889899325295 / 72057594037927936"
  unfolding fdiv_def by (rule fl_cert [where n = 58 and m = 5179559597301180]) (simp_all add: power_divide)

lemma quotient_13_12: "fdiv (1237940039285381 / 18014398509481984) (5381911526356045 / 1125899906842624) = 258977979865059 / 18014398509481984"
  unfolding fdiv_def by (rule fl_cert [where n = 59 and m = 8287295355681888]) (simp_all add: power_divide)

lemma quotient_13_13: "fdiv (7922816251426439 / 144115188075855872) (5381911526356045 / 1125899906842624) = 6629836284545511 / 576460752303423488"
  unfolding fdiv_def by (rule fl_cert [where n = 59 and m = 6629836284545511]) (simp_all add: power_divide)

lemma weights_13: "weights 13 = [1884312804505017 / 9007199254740992, 3014900487208027 / 18014398509481984, 1205960194883211 / 9007199254740992, 7718145247252551 / 72057594037927936, 771814524725255 / 9007199254740992, 4939612958241633 / 72057594037927936, 7903380733186613 / 144115188075855872, 3161352293274645 / 72057594037927936, 5058163669239433 / 144115188075855872, 8093061870783093 / 288230376151711744, 6474449496626475 / 288230376151711744, 1294889899325295 / 72057594037927936, 258977979865059 / 18014398509481984, 6629836284545511 / 576460752303423488]"
  unfolding weights_def Let_def powers_13 total_weight_13 by (simp only: list.map quotient_13_0 quotient_13_1 quotient_13_2 quotient_13_3 quotient_13_4 quotient_13_5 quotient_13_6 quotient_13_7 quotient_13_8 quotient_13_9 quotient_13_10 quotient_13_11 quotient_13_12 quotient_13_13)

lemma partial_13_0: "fadd 0 (1884312804505017 / 9007199254740992) = 1884312804505017 / 9007199254740992"
  unfolding fadd_def by (rule fl_cert [where n = 55 and m = 7537251218020068]) (simp_all add: power_divide)

lemma partial_13_1: "fadd (1884312804505017 / 9007199254740992) (3014900487208027 / 18014398509481984) = 6783526096218061 / 18014398509481984"
  unfolding fadd_def by (rule fl_cert [where n = 54 and m = 6783526096218061]) (simp_all add: power_divide)

lemma partial_13_2: "fadd (6783526096218061 / 18014398509481984) (1205960194883211 / 9007199254740992) = 2298861621496121 / 4503599627370496"
  unfolding fadd_def by (rule fl_cert [where n = 53 and m = 4597723242992242]) (simp_all add: power_divide)

lemma partial_13_3: "fadd (2298861621496121 / 4503599627370496) (7718145247252551 / 72057594037927936) = 5562491398898811 / 9007199254740992"
  unfolding fadd_def by (rule fl_cert [where n = 53 and m = 5562491398898811]) (simp_all add: power_divide)

lemma partial_13_4: "fadd (5562491398898811 / 9007199254740992) (771814524725255 / 9007199254740992) = 3167152961812033 / 4503599627370496"
  unfolding fadd_def by (rule fl_cert [where n = 53 and m = 6334305923624066]) (simp_all add: power_divide)

lemma partial_13_5: "fadd (3167152961812033 / 4503599627370496) (4939612958241633 / 72057594037927936) = 3475878771702135 / 4503599627370496"
  unfolding fadd_def by (rule fl_cert [where n = 53 and m = 6951757543404270]) (simp_all add: power_divide)

lemma partial_13_6: "fadd (3475878771702135 / 4503599627370496) (7903380733186613 / 144115188075855872) = 7445718839228433 / 9007199254740992"
  unfolding fadd_def by (rule fl_cert [where n = 53 and m = 7445718839228433]) (simp_all add: power_divide)

lemma partial_13_7: "fadd (7445718839228433 / 9007199254740992) (3161352293274645 / 72057594037927936) = 1960221968971941 / 2251799813685248"
  unfolding fadd_def by (rule fl_cert [where n = 53 and m = 7840887875887764]) (simp_all add: power_divide)

lemma partial_13_8: "fadd (1960221968971941 / 2251799813685248) (5058163669239433 / 144115188075855872) = 8157023105215229 / 9007199254740992"
  unfolding fadd_def by (rule fl_cert [where n = 53 and m = 8157023105215229]) (simp_all add: power_divide)

lemma partial_13_9: "fadd (8157023105215229 / 9007199254740992) (8093061870783093 / 288230376151711744) = 8409931288677201 / 9007199254740992"
  unfolding fadd_def by (rule fl_cert [where n = 53 and m = 8409931288677201]) (simp_all add: power_divide)

lemma partial_13_10: "fadd (8409931288677201 / 9007199254740992) (6474449496626475 / 288230376151711744) = 4306128917723389 / 4503599627370496"
  unfolding fadd_def by (rule fl_cert [where n = 53 and m = 8612257835446778]) (simp_all add: power_divide)

lemma partial_13_11: "fadd (4306128917723389 / 4503599627370496) (1294889899325295 / 72057594037927936) = 1096764884107805 / 1125899906842624"
  unfolding fadd_def by (rule fl_cert [where n = 53 and m = 8774119072862440]) (simp_all add: power_divide)

lemma partial_13_12: "fadd (1096764884107805 / 1125899906842624) (258977979865059 / 18014398509481984) = 4451804031397485 / 4503599627370496"
  unfolding fadd_def by (rule fl_cert [where n = 53 and m = 8903608062794970]) (simp_all add: power_divide)

lemma partial_13_13: "fadd (4451804031397485 / 4503599627370496) (6629836284545511 / 576460752303423488) = 4503599627370497 / 4503599627370496"
  unfolding fadd_def by (rule fl_cert [where n = 52 and m = 4503599627370497]) (simp_all add: power_divide)

lemma fsum_weights_13: "fsum (weights 13) = 4503599627370497 / 4503599627370496"
  unfolding weights_13 fsum_def by (simp only: foldl.simps partial_13_0 partial_13_1 partial_13_2 partial_13_3 partial_13_4 partial_13_5 partial_13_6 partial_13_7 partial_13_8 partial_13_9 partial_13_10 partial_13_11 partial_13_12 partial_13_13)

section \<open>The Scorer: a graph against itself, and any two graphs\<close>

lemma kernel_identical:
  assumes ne: "nodes G \<noteq> []" and wf: "well_formed G"
  shows "\<exists>a A. histogram (init_wl G) = Some a \<and>
           wl_rounds (nat h) (init_wl G) (init_wl G) [a] [a] = Some (A, A) \<and>
           length A = nat h + 1 \<and> list_all positive_hist A \<and>
           weisfeiler_lehman_kernel G G h = Some (weighted_sum h A A)"
proof -
  from ne have ne1: "nodes (init_wl G) \<noteq> []" by (simp add: init_wl_def)
  from wf have wf1: "well_formed (init_wl G)" by simp
  from histogram_positive [OF labelled_init_wl ne1] obtain a
    where a: "histogram (init_wl G) = Some a" "positive_hist a" by blast
  from a(2) have "list_all positive_hist [a]" by simp
  from wl_rounds_identical [OF wf1 labelled_init_wl ne1 this, of "nat h"] obtain A
    where A: "wl_rounds (nat h) (init_wl G) (init_wl G) [a] [a] = Some (A, A)"
      "length A = length [a] + nat h" "list_all positive_hist A" by blast
  from a(1) A(1) have "weisfeiler_lehman_kernel G G h = Some (weighted_sum h A A)"
    by (simp add: weisfeiler_lehman_kernel_def Let_def)
  with a(1) A show ?thesis by simp
qed

lemma kernel_same_identical:
  assumes ne: "nodes G \<noteq> []" and wf: "well_formed G"
  shows "\<exists>a A. histogram (init_wl (init_wl G)) = Some a \<and>
           wl_rounds_same (nat h) (init_wl (init_wl G)) [a] [a] = Some (A, A) \<and>
           length A = nat h + 1 \<and> list_all positive_hist A \<and>
           weisfeiler_lehman_kernel_same G h = Some (weighted_sum h A A)"
proof -
  from ne have "nodes (init_wl G) \<noteq> []" by (simp add: init_wl_def)
  then have ne2: "nodes (init_wl (init_wl G)) \<noteq> []" by (simp add: init_wl_def)
  from wf have "well_formed (init_wl G)" by simp
  then have wf2: "well_formed (init_wl (init_wl G))" by simp
  from histogram_positive [OF labelled_init_wl ne2] obtain a
    where a: "histogram (init_wl (init_wl G)) = Some a" "positive_hist a" by blast
  from a(2) have "list_all positive_hist [a]" by simp
  from wl_rounds_same_identical [OF wf2 labelled_init_wl ne2 this, of "nat h"] obtain A
    where A: "wl_rounds_same (nat h) (init_wl (init_wl G)) [a] [a] = Some (A, A)"
      "length A = length [a] + nat h" "list_all positive_hist A" by blast
  from a(1) A(1) have "weisfeiler_lehman_kernel_same G h = Some (weighted_sum h A A)"
    by (simp add: weisfeiler_lehman_kernel_same_def Let_def)
  with a(1) A show ?thesis by simp
qed

lemma kernel_of_itself:
  assumes ne: "nodes G \<noteq> []" and wf: "well_formed G" and h: "0 \<le> h"
  shows "weisfeiler_lehman_kernel G G h = Some (fsum (weights h))"
    and "weisfeiler_lehman_kernel_same G h = Some (fsum (weights h))"
proof -
  from h have n: "nat (h + 1) = nat h + 1" by simp
  from kernel_identical [OF ne wf, of h] obtain A
    where A: "length A = nat h + 1" "list_all positive_hist A"
      "weisfeiler_lehman_kernel G G h = Some (weighted_sum h A A)" by blast
  from A(1) n have "nat (h + 1) \<le> length A" by simp
  from weighted_sum_same [OF this A(2)] A(3)
  show "weisfeiler_lehman_kernel G G h = Some (fsum (weights h))" by simp
  from kernel_same_identical [OF ne wf, of h] obtain B
    where B: "length B = nat h + 1" "list_all positive_hist B"
      "weisfeiler_lehman_kernel_same G h = Some (weighted_sum h B B)" by blast
  from B(1) n have "nat (h + 1) \<le> length B" by simp
  from weighted_sum_same [OF this B(2)] B(3)
  show "weisfeiler_lehman_kernel_same G h = Some (fsum (weights h))" by simp
qed

lemma kernel_returns:
  assumes wf1: "well_formed G1" and wf2: "well_formed G2"
  shows "\<exists>A B. weisfeiler_lehman_kernel G1 G2 h = Some (weighted_sum h A B)"
proof -
  from histogram_labelled [OF labelled_init_wl, of G1] obtain x
    where x: "histogram (init_wl G1) = Some x" by blast
  from histogram_labelled [OF labelled_init_wl, of G2] obtain y
    where y: "histogram (init_wl G2) = Some y" by blast
  from wf1 wf2 have "well_formed (init_wl G1)" "well_formed (init_wl G2)" by simp_all
  from wl_rounds_Some [OF this(1) labelled_init_wl this(2) labelled_init_wl, of "nat h" "[x]" "[y]"]
  obtain A B where AB: "wl_rounds (nat h) (init_wl G1) (init_wl G2) [x] [y] = Some (A, B)"
    by blast
  from x y AB have "weisfeiler_lehman_kernel G1 G2 h = Some (weighted_sum h A B)"
    by (simp add: weisfeiler_lehman_kernel_def Let_def)
  then show ?thesis by blast
qed

lemma well_formed_one_node_graph: "well_formed one_node_graph"
  by code_simp



section \<open>The Scorer: claims\<close>

text \<open>
  Claim C2, as stated, fails: the claim expects an error for a negative number of rounds.
  With \<open>h = -1\<close> the Scorer returns normally, and what it returns is the score \<open>0\<close>.
\<close>

theorem C2_negative_rounds_counterexample:
  "weisfeiler_lehman_kernel two_node_graph one_node_graph (- 1) = Some 0"
  by code_simp

text \<open>
  Claim C2, amended. For every pair of graphs and every negative number of rounds the
  Scorer returns normally with the score \<open>0\<close>: \<^verbatim>\<open>range(h)\<close> and \<^verbatim>\<open>range(h+1)\<close> are empty,
  so no round is run, there is no weight to divide and nothing is added to the initial
  \<open>0.0\<close>. The number of rounds is not checked anywhere.
\<close>

theorem C2_negative_rounds_give_zero:
  "h < 0 \<Longrightarrow> weisfeiler_lehman_kernel G1 G2 h = Some 0"
proof -
  assume h: "h < 0"
  from histogram_labelled [OF labelled_init_wl, of G1] obtain a
    where a: "histogram (init_wl G1) = Some a" by blast
  from histogram_labelled [OF labelled_init_wl, of G2] obtain b
    where b: "histogram (init_wl G2) = Some b" by blast
  from h have "nat h = 0" by simp
  with a b h show ?thesis
    by (simp add: weisfeiler_lehman_kernel_def Let_def weighted_sum_negative)
qed

text \<open>An instance with \<open>h = -3\<close>.\<close>

theorem C2_negative_rounds_witness:
  "(- 3 :: int) < 0 \<and> weisfeiler_lehman_kernel two_node_graph two_node_graph (- 3) = Some 0"
  using C2_negative_rounds_give_zero [of "- 3" two_node_graph two_node_graph] by simp




text \<open>
  Claim C8, as stated, fails: the claim expects every score to lie in \<open>[0, 1]\<close>. With
  thirteen rounds a graph of one node scores \<open>1 + 2 ^ -52\<close> against itself, the float above
  \<open>1.0\<close> (printed as \<^verbatim>\<open>1.0000000000000002\<close>): every round's similarity is \<open>1.0\<close> and the
  fourteen rounded weights add up in floating point to more than \<open>1\<close>.
\<close>

theorem C8_thirteen_rounds_counterexample:
  "well_formed one_node_graph \<and>
   weisfeiler_lehman_kernel one_node_graph one_node_graph 13 = Some (1 + 1 / 2 ^ 52) \<and>
   (1::rat) < 1 + 1 / 2 ^ 52"
proof -
  have ne: "nodes one_node_graph \<noteq> []" by (simp add: one_node_graph_def)
  have v: "fsum (weights 13) = 1 + 1 / 2 ^ 52" by (simp add: fsum_weights_13)
  from kernel_of_itself(1) [OF ne well_formed_one_node_graph, of 13] well_formed_one_node_graph
  show ?thesis by (simp add: v)
qed

text \<open>
  Claim C8, amended. For two graphs as the library keeps them (the endpoints of every edge
  among the nodes), empty or not, and \<open>rounds \<ge> 0\<close>, the Scorer returns a score; the score
  is at least \<open>0\<close> and at most the floating-point sum of the normalised weights, which is
  the score of a non-empty graph against itself and is at most \<open>1 + 10 ^ -10\<close>. The
  similarity of one round lies between \<open>0\<close> and \<open>1\<close> for any two histograms, and is \<open>0\<close> for
  two empty ones, whose union is \<open>0\<close>.
\<close>

theorem C8_range_up_to_rounding:
  "well_formed G1 \<Longrightarrow> well_formed G2 \<Longrightarrow> 0 \<le> h \<Longrightarrow>
   (\<exists>r. weisfeiler_lehman_kernel G1 G2 h = Some r \<and> 0 \<le> r \<and> r \<le> fsum (weights h) \<and>
      r \<le> 1 + 1 / 10 ^ 10) \<and>
   0 \<le> round_similarity a b \<and> round_similarity a b \<le> 1 \<and> round_similarity [] [] = 0"
proof (intro conjI)
  assume wf1: "well_formed G1" and wf2: "well_formed G2" and h: "0 \<le> h"
  from kernel_returns [OF wf1 wf2, of h] obtain A B
    where "weisfeiler_lehman_kernel G1 G2 h = Some (weighted_sum h A B)" by blast
  moreover note weighted_sum_range [of h A B]
  moreover from fsum_weights_error [OF h] have "fsum (weights h) \<le> 1 + 1 / 10 ^ 10" by linarith
  ultimately show "\<exists>r. weisfeiler_lehman_kernel G1 G2 h = Some r \<and> 0 \<le> r \<and>
      r \<le> fsum (weights h) \<and> r \<le> 1 + 1 / 10 ^ 10" by force
next
  show "0 \<le> round_similarity a b" "round_similarity a b \<le> 1"
    using round_similarity_range [of a b] by simp_all
  show "round_similarity [] [] = 0" by (rule round_similarity_empty)
qed

text \<open>Instances: a two-node graph against a one-node graph in two rounds, where the sum
  of the weights is \<open>1\<close>.\<close>

theorem C8_range_witness:
  "well_formed two_node_graph \<and> well_formed one_node_graph \<and> (0::int) \<le> 2 \<and>
   (\<exists>r. weisfeiler_lehman_kernel two_node_graph one_node_graph 2 = Some r \<and> 0 \<le> r \<and> r \<le> 1)"
proof -
  have wf1: "well_formed two_node_graph" by code_simp
  have wf2: "well_formed one_node_graph" by code_simp
  have h: "(0::int) \<le> 2" by simp
  from C8_range_up_to_rounding [OF wf1 wf2 h]
  have "\<exists>r. weisfeiler_lehman_kernel two_node_graph one_node_graph 2 = Some r \<and> 0 \<le> r \<and> r \<le> 1"
    unfolding fsum_weights_2 by blast
  with wf1 wf2 h show ?thesis by blast
qed

text \<open>
  Claim C9, as stated, fails, in both of its parts. With one round the two weights are the
  floats \<^verbatim>\<open>1.0 / 1.8\<close> and \<^verbatim>\<open>0.8 / 1.8\<close>, each a rounded quotient, and as rationals they add up
  to \<open>1 + 2 ^ -54\<close>, not to \<open>1\<close>. With 4305 rounds the powers \<^verbatim>\<open>0.8**4304\<close> and \<^verbatim>\<open>0.8**4305\<close> are below the
  smallest positive float and both are \<open>0.0\<close>, so the last two weights are equal and the
  weights are not strictly decreasing.
\<close>

theorem C9_weights_counterexample:
  "sum_list (weights 1) = 1 + 1 / 2 ^ 54 \<and>
   weights 4305 ! 4304 = 0 \<and> weights 4305 ! 4305 = 0"
proof (intro conjI)
  show "sum_list (weights 1) = 1 + 1 / 2 ^ 54" by (simp add: weights_1)
  show "weights 4305 ! 4304 = 0" by (rule weights_underflow) simp_all
  show "weights 4305 ! 4305 = 0" by (rule weights_underflow) simp_all
qed

text \<open>
  Claim C9, amended. For every \<open>rounds \<ge> 1\<close> there are \<open>rounds + 1\<close> weights; the weight of
  round \<open>i\<close> is the float nearest to \<^verbatim>\<open>0.8**i\<close> divided by the floating-point sum of all
  these powers, rounded; every weight lies between \<open>0\<close> and \<open>1\<close>; as rationals the weights
  add up to \<open>1\<close> within \<open>10 ^ -10\<close>; no weight is greater than the one before it, the
  weight of round 0 is strictly greater than the weight of round 1, and over the first
  3000 rounds every weight is strictly smaller than the one before it.
\<close>

theorem C9_weights_up_to_rounding:
  "1 \<le> h \<Longrightarrow>
   length (weights h) = nat h + 1 \<and>
   (\<forall>i \<le> nat h. weights h ! i = fdiv (fpow i) (fsum (map fpow [0..<nat h + 1])) \<and>
      0 \<le> weights h ! i \<and> weights h ! i \<le> 1) \<and>
   \<bar>sum_list (weights h) - 1\<bar> \<le> 1 / 10 ^ 10 \<and>
   (\<forall>i < nat h. weights h ! Suc i \<le> weights h ! i) \<and>
   weights h ! 1 < weights h ! 0 \<and>
   (\<forall>i < nat h. i < 3000 \<longrightarrow> weights h ! Suc i < weights h ! i)"
proof (intro conjI allI impI)
  assume h: "1 \<le> h"
  then have n: "nat (h + 1) = nat h + 1" and h0: "0 \<le> h" and h1: "0 < nat h" by simp_all
  show "length (weights h) = nat h + 1" using n by simp
  show "weights h ! i = fdiv (fpow i) (fsum (map fpow [0..<nat h + 1]))" if "i \<le> nat h" for i
    using that weights_nth [of i h] by (simp add: n)
  show "0 \<le> weights h ! i" if "i \<le> nat h" for i
    using that by (intro weights_range) (simp add: n)
  show "weights h ! i \<le> 1" if "i \<le> nat h" for i
    using that by (intro weights_range) (simp add: n)
  have "(1::rat) / 2 ^ 35 \<le> 1 / 10 ^ 10" by simp
  with weights_sum_error [OF h0] show "\<bar>sum_list (weights h) - 1\<bar> \<le> 1 / 10 ^ 10" by linarith
  show "weights h ! Suc i \<le> weights h ! i" if "i < nat h" for i
    using that by (intro weights_antitone) (simp add: n)
  show "weights h ! Suc i < weights h ! i" if "i < nat h" "i < 3000" for i
    using that by (intro weights_strict) (simp_all add: n)
  from h1 have "weights h ! Suc 0 < weights h ! 0"
    by (intro weights_strict) (simp_all add: n)
  then show "weights h ! 1 < weights h ! 0" by simp
qed

text \<open>For three rounds the four weights are floats near 125/369, 100/369, 80/369 and
  64/369.\<close>

theorem C9_weights_witness:
  "(1::int) \<le> 3 \<and> length (weights 3) = 4 \<and> weights 3 ! 1 < weights 3 ! 0 \<and>
   \<bar>sum_list (weights 3) - 1\<bar> \<le> 1 / 10 ^ 10 \<and>
   weights 3 = [762804814934027 / 2251799813685248,
     4881950815577773 / 18014398509481984,
     3905560652462219 / 18014398509481984,
     6248897043939551 / 36028797018963968]"
proof -
  have h: "(1::int) \<le> 3" by simp
  note th = C9_weights_up_to_rounding [OF h]
  from th have l: "length (weights 3) = 4" by simp
  from th have d: "weights 3 ! 1 < weights 3 ! 0" by blast
  from th have s: "\<bar>sum_list (weights 3) - 1\<bar> \<le> 1 / 10 ^ 10" by blast
  from h l d s weights_3 show ?thesis by blast
qed

end
